theory Spec2Isabelle
  imports Main
begin

section \<open>Strings, bytes and errors\<close>

text \<open>
  A Python \<open>str\<close> is a sequence of Unicode code points, so it is modelled as a list of
  natural numbers (one number per code point, \<open>len\<close> is \<open>length\<close>). A \<open>bytes\<close>
  object is a list of naturals below 256.
\<close>

type_synonym ustr = "nat list"
type_synonym bytes = "nat list"

text \<open>
  Every exception the modelled code can raise is a value. The \<open>ValueError\<close>s raised by
  the repository itself are told apart by their message; \<open>InvalidLiteral\<close> is the
  \<open>ValueError\<close> of \<open>int(s, 2)\<close> and \<open>ByteOutOfRange\<close> that of \<open>bytearray.append\<close>.
\<close>

datatype value_error =
    KeyEmpty
  | KeyNoValidChars
  | BitsNotMultipleOf8
  | BadFormat
  | ContainerTooSmall
  | InvalidLiteral
  | ByteOutOfRange

datatype error =
    ValueError value_error
  | OverflowError
  | UnicodeEncodeError
  | UnicodeDecodeError
  | IndexError
  | KeyError
  | ZeroDivisionError

text \<open>\<open>s[i]\<close> for a non-negative index: out of range raises \<open>IndexError\<close>.\<close>

definition char_at :: "nat list \<Rightarrow> nat \<Rightarrow> error + nat" where
  "char_at s i = (if i < length s then Inr (s ! i) else Inl IndexError)"

section \<open>steganography.py\<close>

subsection \<open>Constants\<close>

definition SPACE :: nat where "SPACE = 0x20"
definition ZWS_0 :: nat where "ZWS_0 = 0x200B"
definition ZWNJ_1 :: nat where "ZWNJ_1 = 0x200C"

text \<open>The characters \<open>'0'\<close> and \<open>'1'\<close>.\<close>

definition c0 :: nat where "c0 = 0x30"
definition c1 :: nat where "c1 = 0x31"

definition MAGIC :: bytes where "MAGIC = [0x5A, 0x57, 0x53, 0x54]"
definition HEADER_BITS :: nat where "HEADER_BITS = 64"

record CapacityInfo =
  spaces :: nat
  bits_capacity :: nat

subsection \<open>get_capacity\<close>

definition get_capacity :: "ustr \<Rightarrow> CapacityInfo" where
  "get_capacity container =
     (let spaces = count_list container SPACE
      in \<lparr> spaces = spaces, bits_capacity = spaces \<rparr>)"

subsection \<open>hide_text_in_container\<close>

text \<open>
  The \<open>for ch in container\<close> loop, with the cursor \<open>i\<close> and the output list \<open>out\<close> as
  explicit state. \<open>secret[i]\<close> is an indexed read and may raise.
\<close>

fun hide_loop :: "ustr \<Rightarrow> ustr \<Rightarrow> nat \<Rightarrow> ustr \<Rightarrow> error + ustr" where
  "hide_loop secret [] i out = Inr out"
| "hide_loop secret (ch # rest) i out =
     (if ch = SPACE \<and> i < length secret then
        (case char_at secret i of
           Inl e \<Rightarrow> Inl e
         | Inr b \<Rightarrow>
             hide_loop secret rest (i + 1)
               ((out @ [SPACE]) @ [if b = c0 then ZWS_0 else ZWNJ_1]))
      else hide_loop secret rest i (out @ [ch]))"

definition hide_text_in_container :: "ustr \<Rightarrow> ustr \<Rightarrow> error + ustr" where
  "hide_text_in_container secret container =
     (let cap = get_capacity container
      in if length secret > bits_capacity cap then Inl (ValueError ContainerTooSmall)
         else hide_loop secret container 0 [])"

subsection \<open>extract_text_from_container\<close>

text \<open>
  The \<open>while i < len(container) - 1\<close> loop. The bound is computed over the integers, as
  Python does (\<open>len(container) - 1\<close> is \<open>-1\<close> for the empty string).
\<close>

function extract_loop :: "ustr \<Rightarrow> nat \<Rightarrow> ustr \<Rightarrow> error + ustr" where
  "extract_loop container i bits =
     (if int i < int (length container) - 1 then
        (case char_at container i of
           Inl e \<Rightarrow> Inl e
         | Inr a \<Rightarrow>
             if a = SPACE then
               (case char_at container (i + 1) of
                  Inl e \<Rightarrow> Inl e
                | Inr b \<Rightarrow>
                    if b = ZWS_0 then extract_loop container (i + 2) (bits @ [c0])
                    else if b = ZWNJ_1 then extract_loop container (i + 2) (bits @ [c1])
                    else extract_loop container (i + 1) bits)
             else extract_loop container (i + 1) bits)
      else Inr bits)"
  by pat_completeness auto
termination
  by (relation "measure (\<lambda>(container, i, bits). length container - i)") auto

definition extract_text_from_container :: "ustr \<Rightarrow> error + ustr" where
  "extract_text_from_container container = extract_loop container 0 []"

section \<open>Specification-side definitions for the carrier codec\<close>

text \<open>
  \<open>scan\<close> is the extraction loop written by recursion on the text instead of an index;
  \<open>extract_loop\<close> is shown below to compute it.
\<close>

fun scan :: "ustr \<Rightarrow> ustr" where
  "scan (a # b # rest) =
     (if a = SPACE \<and> b = ZWS_0 then c0 # scan rest
      else if a = SPACE \<and> b = ZWNJ_1 then c1 # scan rest
      else scan (b # rest))"
| "scan [a] = []"
| "scan [] = []"

text \<open>Some space of \<open>s\<close> is immediately followed by a marker character.\<close>

definition has_marked_space :: "ustr \<Rightarrow> bool" where
  "has_marked_space s =
     (\<exists>i \<in> {0..<length s}. i + 1 < length s \<and> s ! i = SPACE \<and>
        (s ! (i + 1) = ZWS_0 \<or> s ! (i + 1) = ZWNJ_1))"

text \<open>
  The expression \<open>ZWS_0 if secret[i] == "0" else ZWNJ_1\<close>, and the embedding loop written
  by recursion on both strings.
\<close>

definition marker_of :: "nat \<Rightarrow> nat" where
  "marker_of b = (if b = c0 then ZWS_0 else ZWNJ_1)"

fun embed :: "ustr \<Rightarrow> ustr \<Rightarrow> ustr" where
  "embed bs [] = []"
| "embed [] (ch # cs) = ch # cs"
| "embed (b # bs) (ch # cs) =
     (if ch = SPACE then SPACE # marker_of b # embed bs cs else ch # embed (b # bs) cs)"

text \<open>
  The marked carrier in the words of the specification: position \<open>j\<close> of the carrier
  contributes its character, followed by the marker of bit number \<open>spaces_before carrier j\<close>
  when the character is a space and that bit exists. The marker of a bit is \<open>ZWS_0\<close> for
  \<open>'0'\<close> and \<open>ZWNJ_1\<close> for \<open>'1'\<close>.
\<close>

definition spaces_before :: "ustr \<Rightarrow> nat \<Rightarrow> nat" where
  "spaces_before carrier j = count_list (take j carrier) SPACE"

definition bit_marker :: "nat \<Rightarrow> nat" where
  "bit_marker b = (if b = c1 then ZWNJ_1 else ZWS_0)"

definition marked_carrier :: "ustr \<Rightarrow> ustr \<Rightarrow> ustr" where
  "marked_carrier bits carrier =
     concat (map (\<lambda>j. if carrier ! j = SPACE \<and> spaces_before carrier j < length bits
                       then [SPACE, bit_marker (bits ! spaces_before carrier j)]
                       else [carrier ! j])
                 [0..<length carrier])"

text \<open>The positions of the spaces of a string, in increasing order.\<close>

definition space_positions :: "ustr \<Rightarrow> nat list" where
  "space_positions s = filter (\<lambda>j. s ! j = SPACE) [0..<length s]"

text \<open>A bit string is a string over \<open>'0'\<close> and \<open>'1'\<close>.\<close>

definition bit_string :: "ustr \<Rightarrow> bool" where
  "bit_string s = list_all (\<lambda>c. c = c0 \<or> c = c1) s"

subsection \<open>Built-ins used by the framing codec\<close>

text \<open>
  \<open>s[a:b]\<close> for non-negative bounds: Python clamps the slice to what is present and
  never raises.
\<close>

definition slice :: "'a list \<Rightarrow> nat \<Rightarrow> nat \<Rightarrow> 'a list" where
  "slice s a b = take (b - a) (drop a s)"

text \<open>
  \<open>int(s, 2)\<close> on a string of binary digits. The built-in also accepts a sign, a
  \<open>0b\<close> prefix, underscores and surrounding white space; those inputs are outside the
  model, which covers the digit strings \<open>'0'\<close>/\<open>'1'\<close> that every statement below is
  about (\<open>bit_string\<close>), and answers \<open>InvalidLiteral\<close> elsewhere.
\<close>

definition int_base2 :: "ustr \<Rightarrow> error + nat" where
  "int_base2 s =
     (if s \<noteq> [] \<and> bit_string s
      then Inr (foldl (\<lambda>a c. 2 * a + (if c = c1 then 1 else 0)) 0 s)
      else Inl (ValueError InvalidLiteral))"

text \<open>\<open>bytearray.append(v)\<close>: the value must be in \<open>range(256)\<close>.\<close>

definition bytearray_append :: "bytes \<Rightarrow> nat \<Rightarrow> error + bytes" where
  "bytearray_append out v =
     (if v < 256 then Inr (out @ [v]) else Inl (ValueError ByteOutOfRange))"

text \<open>\<open>range(0, n, 8)\<close>.\<close>

definition range8 :: "nat \<Rightarrow> nat list" where
  "range8 n = map (\<lambda>k. 8 * k) [0..<(n + 7) div 8]"

text \<open>\<open>n.to_bytes(4, "big")\<close> and \<open>int.from_bytes(bs, "big")\<close>.\<close>

definition to_bytes4_big :: "nat \<Rightarrow> error + bytes" where
  "to_bytes4_big n =
     (if n < 2 ^ 32
      then Inr [n div 2 ^ 24 mod 256, n div 2 ^ 16 mod 256, n div 2 ^ 8 mod 256, n mod 256]
      else Inl OverflowError)"

definition from_bytes_big :: "bytes \<Rightarrow> nat" where
  "from_bytes_big bs = foldl (\<lambda>a b. a * 256 + b) 0 bs"

text \<open>
  \<open>text.encode("utf-8")\<close> and \<open>data.decode("utf-8")\<close> with the default strict error
  handling, written out from the definition of UTF-8: one to four bytes per code point,
  surrogates (\<open>U+D800\<close> to \<open>U+DFFF\<close>) are not encodable, and the decoder rejects stray and
  missing continuation bytes, overlong forms, surrogates and values above \<open>U+10FFFF\<close>.
\<close>

definition is_scalar :: "nat \<Rightarrow> bool" where
  "is_scalar c = (c < 0xD800 \<or> (0xE000 \<le> c \<and> c < 0x110000))"

definition utf8_encode_char :: "nat \<Rightarrow> error + bytes" where
  "utf8_encode_char c =
     (if c < 0x80 then Inr [c]
      else if c < 0x800 then Inr [0xC0 + c div 64, 0x80 + c mod 64]
      else if 0xD800 \<le> c \<and> c < 0xE000 then Inl UnicodeEncodeError
      else if c < 0x10000 then
        Inr [0xE0 + c div 4096, 0x80 + c div 64 mod 64, 0x80 + c mod 64]
      else if c < 0x110000 then
        Inr [0xF0 + c div 262144, 0x80 + c div 4096 mod 64,
             0x80 + c div 64 mod 64, 0x80 + c mod 64]
      else Inl UnicodeEncodeError)"

fun utf8_encode :: "ustr \<Rightarrow> error + bytes" where
  "utf8_encode [] = Inr []"
| "utf8_encode (c # cs) =
     (case utf8_encode_char c of
        Inl e \<Rightarrow> Inl e
      | Inr b \<Rightarrow> (case utf8_encode cs of Inl e \<Rightarrow> Inl e | Inr bs \<Rightarrow> Inr (b @ bs)))"

definition is_cont :: "nat \<Rightarrow> bool" where
  "is_cont b = (0x80 \<le> b \<and> b < 0xC0)"

definition prepend :: "nat \<Rightarrow> error + ustr \<Rightarrow> error + ustr" where
  "prepend c r = (case r of Inl e \<Rightarrow> Inl e | Inr cs \<Rightarrow> Inr (c # cs))"

fun utf8_decode :: "bytes \<Rightarrow> error + ustr" where
  "utf8_decode [] = Inr []"
| "utf8_decode (b0 # bs) =
     (if b0 < 0x80 then prepend b0 (utf8_decode bs)
      else if 0xC2 \<le> b0 \<and> b0 < 0xE0 then
        (case bs of
           b1 # r \<Rightarrow>
             if is_cont b1
             then prepend ((b0 - 0xC0) * 64 + (b1 - 0x80)) (utf8_decode r)
             else Inl UnicodeDecodeError
         | _ \<Rightarrow> Inl UnicodeDecodeError)
      else if 0xE0 \<le> b0 \<and> b0 < 0xF0 then
        (case bs of
           b1 # b2 # r \<Rightarrow>
             let cp = (b0 - 0xE0) * 4096 + (b1 - 0x80) * 64 + (b2 - 0x80)
             in if is_cont b1 \<and> is_cont b2 \<and> 0x800 \<le> cp \<and> is_scalar cp
                then prepend cp (utf8_decode r)
                else Inl UnicodeDecodeError
         | _ \<Rightarrow> Inl UnicodeDecodeError)
      else if 0xF0 \<le> b0 \<and> b0 < 0xF5 then
        (case bs of
           b1 # b2 # b3 # r \<Rightarrow>
             let cp = (b0 - 0xF0) * 262144 + (b1 - 0x80) * 4096 + (b2 - 0x80) * 64 + (b3 - 0x80)
             in if is_cont b1 \<and> is_cont b2 \<and> is_cont b3 \<and> 0x10000 \<le> cp \<and> cp < 0x110000
                then prepend cp (utf8_decode r)
                else Inl UnicodeDecodeError
         | _ \<Rightarrow> Inl UnicodeDecodeError)
      else Inl UnicodeDecodeError)"

subsection \<open>_bytes_to_bits\<close>

text \<open>
  \<open>f"{b:08b}"\<close> for a byte \<open>b\<close>: its eight binary digits, most significant first
  (the elements of a \<open>bytes\<close> object are below 256, so the width is exactly 8).
\<close>

definition bit_char :: "nat \<Rightarrow> nat \<Rightarrow> nat" where
  "bit_char b k = (if b div 2 ^ k mod 2 = 1 then c1 else c0)"

definition fmt_08b :: "nat \<Rightarrow> ustr" where
  "fmt_08b b = map (bit_char b) [7, 6, 5, 4, 3, 2, 1, 0]"

definition bytes_to_bits :: "bytes \<Rightarrow> ustr" where
  "bytes_to_bits data = concat (map fmt_08b data)"

subsection \<open>_bits_to_bytes\<close>

fun bits_to_bytes_loop :: "ustr \<Rightarrow> nat list \<Rightarrow> bytes \<Rightarrow> error + bytes" where
  "bits_to_bytes_loop bits [] out = Inr out"
| "bits_to_bytes_loop bits (i # is) out =
     (case int_base2 (slice bits i (i + 8)) of
        Inl e \<Rightarrow> Inl e
      | Inr v \<Rightarrow>
          (case bytearray_append out v of
             Inl e \<Rightarrow> Inl e
           | Inr out' \<Rightarrow> bits_to_bytes_loop bits is out'))"

definition bits_to_bytes :: "ustr \<Rightarrow> error + bytes" where
  "bits_to_bytes bits =
     (if length bits mod 8 \<noteq> 0 then Inl (ValueError BitsNotMultipleOf8)
      else bits_to_bytes_loop bits (range8 (length bits)) [])"

subsection \<open>text_to_binary\<close>

definition text_to_binary :: "ustr \<Rightarrow> error + ustr" where
  "text_to_binary text =
     (case utf8_encode text of
        Inl e \<Rightarrow> Inl e
      | Inr payload \<Rightarrow>
          (case to_bytes4_big (length payload) of
             Inl e \<Rightarrow> Inl e
           | Inr len_bytes \<Rightarrow>
               let header = MAGIC @ len_bytes
               in Inr (bytes_to_bits (header @ payload))))"

subsection \<open>binary_to_text\<close>

definition binary_to_text :: "ustr \<Rightarrow> error + ustr" where
  "binary_to_text binary =
     (case bits_to_bytes (slice binary 0 HEADER_BITS) of
        Inl e \<Rightarrow> Inl e
      | Inr header \<Rightarrow>
          if slice header 0 4 \<noteq> MAGIC then Inl (ValueError BadFormat)
          else
            let len = from_bytes_big (drop 4 header);
                payload_bits = slice binary HEADER_BITS (HEADER_BITS + len * 8)
            in (case bits_to_bytes payload_bits of
                  Inl e \<Rightarrow> Inl e
                | Inr payload \<Rightarrow> utf8_decode payload))"

text \<open>
  What is left of a carrier after its first \<open>n\<close> spaces: the part that receives no
  marker when \<open>n\<close> bits are embedded.
\<close>

fun rest_after :: "nat \<Rightarrow> ustr \<Rightarrow> ustr" where
  "rest_after 0 cs = cs"
| "rest_after (Suc n) [] = []"
| "rest_after (Suc n) (ch # cs) = (if ch = SPACE then rest_after n cs else rest_after (Suc n) cs)"

section \<open>vigenere.py and utils.py\<close>

subsection \<open>The alphabet\<close>

text \<open>
  \<open>LETTERS\<close> of \<open>vigenere.py\<close>, as code points: \<open>A\<close> to \<open>Z\<close>, the 33 Cyrillic
  capitals in the order of the source, and the twelve further capitals of its third line.
  \<open>utils.py\<close> declares the same constant again.
\<close>

definition LETTERS :: ustr where
  "LETTERS =
     [0x41, 0x42, 0x43, 0x44, 0x45, 0x46, 0x47, 0x48, 0x49, 0x4A, 0x4B, 0x4C, 0x4D,
      0x4E, 0x4F, 0x50, 0x51, 0x52, 0x53, 0x54, 0x55, 0x56, 0x57, 0x58, 0x59, 0x5A,
      0x410, 0x411, 0x412, 0x413, 0x414, 0x415, 0x401, 0x416, 0x417, 0x418, 0x419,
      0x41A, 0x41B, 0x41C, 0x41D, 0x41E, 0x41F, 0x420, 0x421, 0x422, 0x423, 0x424,
      0x425, 0x426, 0x427, 0x428, 0x429, 0x42C, 0x42A, 0x42B, 0x42D, 0x42E, 0x42F,
      0x490, 0x404, 0x406, 0x40E, 0x407, 0xDC, 0xD6, 0xC4, 0x1E9E, 0xC5, 0xC6, 0xD8]"

definition utils_LETTERS :: ustr where
  "utils_LETTERS =
     [0x41, 0x42, 0x43, 0x44, 0x45, 0x46, 0x47, 0x48, 0x49, 0x4A, 0x4B, 0x4C, 0x4D,
      0x4E, 0x4F, 0x50, 0x51, 0x52, 0x53, 0x54, 0x55, 0x56, 0x57, 0x58, 0x59, 0x5A,
      0x410, 0x411, 0x412, 0x413, 0x414, 0x415, 0x401, 0x416, 0x417, 0x418, 0x419,
      0x41A, 0x41B, 0x41C, 0x41D, 0x41E, 0x41F, 0x420, 0x421, 0x422, 0x423, 0x424,
      0x425, 0x426, 0x427, 0x428, 0x429, 0x42C, 0x42A, 0x42B, 0x42D, 0x42E, 0x42F,
      0x490, 0x404, 0x406, 0x40E, 0x407, 0xDC, 0xD6, 0xC4, 0x1E9E, 0xC5, 0xC6, 0xD8]"

subsection \<open>Built-ins used by the cipher\<close>

text \<open>
  \<open>s.upper()\<close> replaces every code point by its full Unicode uppercase mapping, one
  code point at a time (a mapping can be several code points long, as for \<open>U+00DF\<close>).
  The mapping is a table of the Python runtime, not of this repository, so it is the
  parameter \<open>up\<close> of every function that uppercases.
\<close>

definition upper :: "(nat \<Rightarrow> ustr) \<Rightarrow> ustr \<Rightarrow> ustr" where
  "upper up s = concat (map up s)"

text \<open>
  A concrete instance of the table, used where a statement is evaluated: it is the
  uppercase mapping on \<open>U+0000\<close> to \<open>U+00FF\<close>, on \<open>U+0400\<close> to \<open>U+045F\<close> and on
  \<open>U+0490\<close>, \<open>U+0491\<close>, and leaves every other code point unchanged (the real table has
  more entries there).
\<close>

definition basic_upper :: "nat \<Rightarrow> ustr" where
  "basic_upper c =
     (if 0x61 \<le> c \<and> c \<le> 0x7A then [c - 0x20]
      else if c = 0xB5 then [0x39C]
      else if c = 0xDF then [0x53, 0x53]
      else if 0xE0 \<le> c \<and> c \<le> 0xFE \<and> c \<noteq> 0xF7 then [c - 0x20]
      else if c = 0xFF then [0x178]
      else if 0x430 \<le> c \<and> c \<le> 0x44F then [c - 0x20]
      else if 0x450 \<le> c \<and> c \<le> 0x45F then [c - 0x50]
      else if c = 0x491 then [0x490]
      else [c])"

text \<open>
  The dictionary \<open>{ch: i for i, ch in enumerate(xs)}\<close>: entries are stored in order, a
  later one replacing an earlier one with the same key. \<open>m[k]\<close> raises \<open>KeyError\<close> for
  a missing key, \<open>a % b\<close> raises \<open>ZeroDivisionError\<close> for \<open>b = 0\<close> and is
  non-negative for positive \<open>b\<close>.
\<close>

definition enumerate_dict :: "nat list \<Rightarrow> (nat \<rightharpoonup> nat)" where
  "enumerate_dict xs = foldl (\<lambda>m (i, ch). m(ch \<mapsto> i)) Map.empty (enumerate 0 xs)"

definition dict_get :: "(nat \<rightharpoonup> nat) \<Rightarrow> nat \<Rightarrow> error + nat" where
  "dict_get m k = (case m k of None \<Rightarrow> Inl KeyError | Some v \<Rightarrow> Inr v)"

definition py_mod :: "int \<Rightarrow> nat \<Rightarrow> error + nat" where
  "py_mod a b = (if b = 0 then Inl ZeroDivisionError else Inr (nat (a mod int b)))"

definition ebind :: "error + 'a \<Rightarrow> ('a \<Rightarrow> error + 'b) \<Rightarrow> error + 'b" where
  "ebind m f = (case m of Inl e \<Rightarrow> Inl e | Inr x \<Rightarrow> f x)"

subsection \<open>_prepare_key\<close>

definition prepare_key :: "(nat \<Rightarrow> ustr) \<Rightarrow> ustr \<Rightarrow> error + (ustr \<times> (nat \<rightharpoonup> nat) \<times> nat)" where
  "prepare_key up key =
     (if key = [] then Inl (ValueError KeyEmpty)
      else
        let index = enumerate_dict LETTERS;
            key_upper = upper up key;
            key_filtered = filter (\<lambda>ch. index ch \<noteq> None) key_upper
        in if key_filtered = [] then Inl (ValueError KeyNoValidChars)
           else Inr (key_filtered, index, length LETTERS))"

subsection \<open>vigenere_encrypt\<close>

text \<open>
  The body of the \<open>if ch in index\<close> branch: the shift
  \<open>index[key_filtered[key_i % len(key_filtered)]]\<close> and then the letter
  \<open>LETTERS[(index[ch] + shift) % n]\<close>, every lookup being one that can raise.
\<close>

definition encrypt_char :: "ustr \<Rightarrow> (nat \<rightharpoonup> nat) \<Rightarrow> nat \<Rightarrow> nat \<Rightarrow> nat \<Rightarrow> error + nat" where
  "encrypt_char key_filtered index n key_i ch =
     ebind (py_mod (int key_i) (length key_filtered)) (\<lambda>p.
     ebind (char_at key_filtered p) (\<lambda>kc.
     ebind (dict_get index kc) (\<lambda>shift.
     ebind (dict_get index ch) (\<lambda>ci.
     ebind (py_mod (int ci + int shift) n) (\<lambda>q.
     char_at LETTERS q)))))"

fun encrypt_loop :: "ustr \<Rightarrow> (nat \<rightharpoonup> nat) \<Rightarrow> nat \<Rightarrow> ustr \<Rightarrow> nat \<Rightarrow> ustr \<Rightarrow> error + ustr" where
  "encrypt_loop key_filtered index n [] key_i out = Inr out"
| "encrypt_loop key_filtered index n (ch # rest) key_i out =
     (if index ch \<noteq> None then
        (case encrypt_char key_filtered index n key_i ch of
           Inl e \<Rightarrow> Inl e
         | Inr l \<Rightarrow> encrypt_loop key_filtered index n rest (key_i + 1) (out @ [l]))
      else encrypt_loop key_filtered index n rest key_i (out @ [ch]))"

definition vigenere_encrypt :: "(nat \<Rightarrow> ustr) \<Rightarrow> ustr \<Rightarrow> ustr \<Rightarrow> error + ustr" where
  "vigenere_encrypt up text key =
     (case prepare_key up key of
        Inl e \<Rightarrow> Inl e
      | Inr (key_filtered, index, n) \<Rightarrow>
          encrypt_loop key_filtered index n (upper up text) 0 [])"

subsection \<open>vigenere_decrypt\<close>

definition decrypt_char :: "ustr \<Rightarrow> (nat \<rightharpoonup> nat) \<Rightarrow> nat \<Rightarrow> nat \<Rightarrow> nat \<Rightarrow> error + nat" where
  "decrypt_char key_filtered index n key_i ch =
     ebind (py_mod (int key_i) (length key_filtered)) (\<lambda>p.
     ebind (char_at key_filtered p) (\<lambda>kc.
     ebind (dict_get index kc) (\<lambda>shift.
     ebind (dict_get index ch) (\<lambda>ci.
     ebind (py_mod (int ci - int shift) n) (\<lambda>q.
     char_at LETTERS q)))))"

fun decrypt_loop :: "ustr \<Rightarrow> (nat \<rightharpoonup> nat) \<Rightarrow> nat \<Rightarrow> ustr \<Rightarrow> nat \<Rightarrow> ustr \<Rightarrow> error + ustr" where
  "decrypt_loop key_filtered index n [] key_i out = Inr out"
| "decrypt_loop key_filtered index n (ch # rest) key_i out =
     (if index ch \<noteq> None then
        (case decrypt_char key_filtered index n key_i ch of
           Inl e \<Rightarrow> Inl e
         | Inr l \<Rightarrow> decrypt_loop key_filtered index n rest (key_i + 1) (out @ [l]))
      else decrypt_loop key_filtered index n rest key_i (out @ [ch]))"

definition vigenere_decrypt :: "(nat \<Rightarrow> ustr) \<Rightarrow> ustr \<Rightarrow> ustr \<Rightarrow> error + ustr" where
  "vigenere_decrypt up text key =
     (case prepare_key up key of
        Inl e \<Rightarrow> Inl e
      | Inr (key_filtered, index, n) \<Rightarrow>
          decrypt_loop key_filtered index n (upper up text) 0 [])"

subsection \<open>validate_key (utils.py)\<close>

definition validate_key :: "(nat \<Rightarrow> ustr) \<Rightarrow> ustr \<Rightarrow> bool" where
  "validate_key up key =
     (if key = [] then False
      else let key = upper up key in list_all (\<lambda>ch. ch \<in> set utils_LETTERS) key)"

section \<open>Carrier embedding and extraction: proofs\<close>

lemmas char_defs = SPACE_def ZWS_0_def ZWNJ_1_def c0_def c1_def

declare extract_loop.simps [simp del]

lemma scan_short: "length s \<le> 1 \<Longrightarrow> scan s = []"
  by (cases s rule: scan.cases) auto

lemma extract_loop_scan:
  "i \<le> length s \<Longrightarrow> extract_loop s i bits = Inr (bits @ scan (drop i s))"
proof (induction s i bits rule: extract_loop.induct)
  case (1 container i bits)
  show ?case
  proof (cases "int i < int (length container) - 1")
    case False
    then have "length (drop i container) \<le> 1" using 1(5) by simp
    then have "scan (drop i container) = []" by (rule scan_short)
    with False show ?thesis by (subst extract_loop.simps) simp
  next
    case True
    then have lt: "i + 1 < length container" by linarith
    have d1: "drop (Suc i) container = container ! Suc i # drop (Suc (Suc i)) container"
      using lt Cons_nth_drop_Suc [of "Suc i" container] by simp
    have d: "drop i container = container ! i # container ! Suc i # drop (Suc (Suc i)) container"
      using lt d1 Cons_nth_drop_Suc [of i container] by simp
    have ca: "char_at container i = Inr (container ! i)"
      and cb: "char_at container (i + 1) = Inr (container ! (i + 1))"
      and cb': "char_at container (Suc i) = Inr (container ! Suc i)"
      using lt by (simp_all add: char_at_def)
    have ns: "ZWS_0 \<noteq> ZWNJ_1" by (simp add: char_defs)
    consider (z) "container ! i = SPACE" "container ! (i + 1) = ZWS_0"
      | (o) "container ! i = SPACE" "container ! (i + 1) \<noteq> ZWS_0" "container ! (i + 1) = ZWNJ_1"
      | (n) "container ! i = SPACE" "container ! (i + 1) \<noteq> ZWS_0" "container ! (i + 1) \<noteq> ZWNJ_1"
      | (m) "container ! i \<noteq> SPACE"
      by blast
    then show ?thesis
    proof cases
      case z
      have "extract_loop container (i + 2) (bits @ [c0]) = Inr ((bits @ [c0]) @ scan (drop (i + 2) container))"
        using 1(1) [OF True ca z(1) cb z(2)] lt by simp
      then show ?thesis
        using True z by (subst extract_loop.simps) (simp add: ca cb' d)
    next
      case o
      have "extract_loop container (i + 2) (bits @ [c1]) = Inr ((bits @ [c1]) @ scan (drop (i + 2) container))"
        using 1(2) [OF True ca o(1) cb o(2) o(3)] lt by simp
      then show ?thesis
        using True o by (subst extract_loop.simps) (simp add: ca cb' d)
    next
      case n
      have "extract_loop container (i + 1) bits = Inr (bits @ scan (drop (i + 1) container))"
        using 1(3) [OF True ca n(1) cb n(2) n(3)] lt by simp
      then show ?thesis
        using True n by (subst extract_loop.simps) (simp add: ca cb' d d1)
    next
      case m
      have "extract_loop container (i + 1) bits = Inr (bits @ scan (drop (i + 1) container))"
        using 1(4) [OF True ca m] lt by simp
      then show ?thesis
        using True m by (subst extract_loop.simps) (simp add: ca cb' d d1)
    qed
  qed
qed

lemma has_marked_space_iff:
  "has_marked_space s \<longleftrightarrow> (\<exists>i. Suc i < length s \<and> s ! i = SPACE \<and> (s ! Suc i = ZWS_0 \<or> s ! Suc i = ZWNJ_1))"
  unfolding has_marked_space_def by auto

lemma has_marked_space_Cons2:
  "has_marked_space (a # b # rest) \<longleftrightarrow> (a = SPACE \<and> (b = ZWS_0 \<or> b = ZWNJ_1)) \<or> has_marked_space (b # rest)"
  unfolding has_marked_space_iff
  apply (rule iffI)
  subgoal by (metis (no_types, lifting) Suc_less_eq length_Cons nth_Cons_0 nth_Cons_Suc not0_implies_Suc)
  subgoal by (metis Suc_less_eq length_Cons nth_Cons_0 nth_Cons_Suc zero_less_Suc)
  done

lemma scan_empty_iff: "scan s = [] \<longleftrightarrow> \<not> has_marked_space s"
proof (induction s rule: scan.induct)
  case (1 a b rest)
  have ns: "SPACE \<noteq> ZWS_0" "SPACE \<noteq> ZWNJ_1" by (simp_all add: char_defs)
  show ?case
  proof (cases "a = SPACE \<and> (b = ZWS_0 \<or> b = ZWNJ_1)")
    case True
    then show ?thesis by (auto simp: has_marked_space_Cons2)
  next
    case False
    then show ?thesis using 1(3) by (auto simp: has_marked_space_Cons2)
  qed
qed (simp_all add: has_marked_space_iff)


lemma embed_Nil [simp]: "embed [] cs = cs"
  by (cases cs) simp_all

lemma hide_loop_embed:
  "i \<le> length secret \<Longrightarrow> hide_loop secret cs i out = Inr (out @ embed (drop i secret) cs)"
proof (induction cs arbitrary: i out)
  case Nil
  then show ?case by simp
next
  case (Cons ch cs)
  show ?case
  proof (cases "ch = SPACE \<and> i < length secret")
    case True
    then have d: "drop i secret = secret ! i # drop (Suc i) secret"
      by (simp add: Cons_nth_drop_Suc)
    from True have "Suc i \<le> length secret" by simp
    from Cons.IH [OF this] True show ?thesis
      by (simp add: char_at_def d marker_of_def)
  next
    case False
    then consider "ch \<noteq> SPACE" | "ch = SPACE" "drop i secret = []"
      using Cons.prems by auto
    then show ?thesis
    proof cases
      case 1
      then show ?thesis using Cons.IH [OF Cons.prems]
        by (cases "drop i secret") simp_all
    next
      case 2
      then show ?thesis using False Cons.IH [OF Cons.prems] by simp
    qed
  qed
qed

lemma count_list_filter_length: "count_list xs x = length (filter (\<lambda>y. y = x) xs)"
  by (induction xs) auto

lemma embed_concat:
  "embed (drop k bits) cs =
     concat (map (\<lambda>j. if cs ! j = SPACE \<and> k + count_list (take j cs) SPACE < length bits
                       then [SPACE, marker_of (bits ! (k + count_list (take j cs) SPACE))]
                       else [cs ! j])
                 [0..<length cs])"
proof (induction cs arbitrary: k)
  case Nil
  then show ?case by simp
next
  case (Cons ch cs)
  show ?case
  proof (cases "ch = SPACE \<and> k < length bits")
    case True
    then have d: "drop k bits = bits ! k # drop (Suc k) bits"
      by (simp add: Cons_nth_drop_Suc)
    show ?thesis using True Cons.IH [of "Suc k"]
      by (simp add: d map_upt_Suc del: upt_Suc cong: if_cong)
  next
    case False
    show ?thesis
    proof (cases "ch = SPACE")
      case True
      with False have "drop k bits = []" by simp
      moreover have "\<And>j. \<not> (k + (1 + count_list (take j cs) SPACE) < length bits)"
        using False True by simp
      ultimately show ?thesis using True False
        by (simp add: map_upt_Suc map_nth del: upt_Suc cong: if_cong)
    next
      case False
      then show ?thesis using Cons.IH [of k]
        by (cases "drop k bits") (simp_all add: map_upt_Suc map_nth del: upt_Suc cong: if_cong)
    qed
  qed
qed

lemma bit_marker_eq: "b = c0 \<or> b = c1 \<Longrightarrow> bit_marker b = marker_of b"
  by (auto simp: bit_marker_def marker_of_def char_defs)


lemma space_positions_Cons:
  "space_positions (ch # cs) = (if ch = SPACE then [0] else []) @ map Suc (space_positions cs)"
proof -
  have "[0..<length (ch # cs)] = 0 # map Suc [0..<length cs]"
    by (simp add: upt_conv_Cons map_Suc_upt del: upt_Suc)
  then show ?thesis
    by (simp add: space_positions_def filter_map comp_def del: upt_Suc)
qed

lemma length_space_positions: "length (space_positions s) = count_list s SPACE"
  by (induction s) (simp_all add: space_positions_Cons, simp add: space_positions_def)

lemma length_embed:
  "length bs \<le> count_list cs SPACE \<Longrightarrow> length (embed bs cs) = length cs + length bs"
  by (induction bs cs rule: embed.induct) (auto split: if_splits)

lemma embed_positions:
  "length bs \<le> count_list cs SPACE \<Longrightarrow> i < length bs \<Longrightarrow>
     embed bs cs ! (space_positions cs ! i + i) = SPACE \<and>
     embed bs cs ! Suc (space_positions cs ! i + i) = marker_of (bs ! i)"
proof (induction bs cs arbitrary: i rule: embed.induct)
  case (1 bs)
  then show ?case by simp
next
  case (2 ch cs)
  then show ?case by simp
next
  case (3 b bs ch cs)
  show ?case
  proof (cases "ch = SPACE")
    case True
    show ?thesis
    proof (cases i)
      case 0
      then show ?thesis using True by (simp add: space_positions_Cons)
    next
      case (Suc i')
      have le: "length bs \<le> count_list cs SPACE" and lt: "i' < length bs"
        using "3.prems" True Suc by simp_all
      then have "i' < length (space_positions cs)" by (simp add: length_space_positions)
      then show ?thesis using "3.IH"(1) [OF True le lt] True Suc
        by (simp add: space_positions_Cons)
    qed
  next
    case False
    have le: "length (b # bs) \<le> count_list cs SPACE" using "3.prems" False by simp
    then have "i < length (space_positions cs)" using "3.prems"(2) by (simp add: length_space_positions)
    then show ?thesis using "3.IH"(2) [OF False le "3.prems"(2)] False
      by (simp add: space_positions_Cons)
  qed
qed

lemma hide_text_embed:
  "hide_text_in_container secret carrier =
     (if length secret > count_list carrier SPACE then Inl (ValueError ContainerTooSmall)
      else Inr (embed secret carrier))"
  using hide_loop_embed [of 0 secret carrier "[]"]
  by (simp add: hide_text_in_container_def get_capacity_def Let_def)

lemma extract_text_scan: "extract_text_from_container s = Inr (scan s)"
  using extract_loop_scan [of 0 s "[]"] by (simp add: extract_text_from_container_def)

lemma marked_carrier_embed:
  assumes "bit_string bits"
  shows "marked_carrier bits carrier = embed bits carrier"
proof -
  have "\<And>j. spaces_before carrier j < length bits \<Longrightarrow>
          bit_marker (bits ! spaces_before carrier j) = marker_of (bits ! spaces_before carrier j)"
    using assms by (intro bit_marker_eq) (simp add: bit_string_def list_all_length)
  then have "marked_carrier bits carrier =
     concat (map (\<lambda>j. if carrier ! j = SPACE \<and> 0 + count_list (take j carrier) SPACE < length bits
                       then [SPACE, marker_of (bits ! (0 + count_list (take j carrier) SPACE))]
                       else [carrier ! j])
                 [0..<length carrier])"
    unfolding marked_carrier_def spaces_before_def
    by (intro arg_cong [where f = concat] map_cong) auto
  also have "\<dots> = embed (drop 0 bits) carrier" by (rule embed_concat [symmetric])
  finally show ?thesis by simp
qed

text \<open>
  Claim C4. For a bit string \<open>bits\<close>, \<open>hide_text_in_container\<close> raises the
  "container too small" \<open>ValueError\<close> exactly when \<open>bits\<close> is longer than the number
  of spaces of the carrier, returning nothing then; otherwise it returns the carrier in which
  every space that has fewer than \<open>length bits\<close> spaces before it is followed by the marker
  of the bit with that index, every other character being emitted unchanged, in order.
\<close>

theorem hide_text_in_container_spec:
  assumes "bit_string bits"
  shows "hide_text_in_container bits carrier =
     (if length bits > count_list carrier SPACE then Inl (ValueError ContainerTooSmall)
      else Inr (marked_carrier bits carrier))"
  by (simp add: hide_text_embed marked_carrier_embed [OF assms])

theorem hide_text_in_container_spec_witness:
  "bit_string [c0, c1] \<and>
   hide_text_in_container [c0, c1] [0x61, 0x20, 0x62, 0x20, 0x63, 0x20, 0x64] =
     Inr [0x61, 0x20, 0x200B, 0x62, 0x20, 0x200C, 0x63, 0x20, 0x64] \<and>
   hide_text_in_container [c0, c1] [0x61, 0x20, 0x62] = Inl (ValueError ContainerTooSmall)"
proof -
  have b: "bit_string [c0, c1]" by (simp add: bit_string_def)
  have u: "[0..<7] = [0, 1, 2, 3, 4, 5, 6]" "[0..<3] = [0,1,2]" by (simp_all add: upt_rec)
  show ?thesis
    using hide_text_in_container_spec [OF b, of "[0x61, 0x20, 0x62, 0x20, 0x63, 0x20, 0x64]"]
      hide_text_in_container_spec [OF b, of "[0x61, 0x20, 0x62]"]
    by (simp add: bit_string_def marked_carrier_def spaces_before_def bit_marker_def char_defs u)
qed

text \<open>
  Claim C10. The secret is not validated: whatever characters it holds, if the carrier has
  enough spaces the call succeeds, and for each \<open>i\<close> the output has the \<open>i\<close>-th space
  of the carrier (shifted by the \<open>i\<close> markers inserted before it) followed by \<open>ZWS_0\<close> when
  \<open>secret[i]\<close> is \<open>'0'\<close> and by \<open>ZWNJ_1\<close> for any other character.
\<close>

theorem hide_embeds_any_character:
  assumes "length secret \<le> count_list carrier SPACE"
  shows "\<exists>out. hide_text_in_container secret carrier = Inr out \<and>
           length out = length carrier + length secret \<and>
           (\<forall>i<length secret.
              out ! (space_positions carrier ! i + i) = SPACE \<and>
              out ! (space_positions carrier ! i + i + 1) =
                (if secret ! i = c0 then ZWS_0 else ZWNJ_1))"
  using assms embed_positions [OF assms] length_embed [OF assms]
  by (simp add: hide_text_embed marker_of_def)

text \<open>
  Claim C9. \<open>extract_text_from_container\<close> returns for every input (no indexed read is
  out of range), and the result is empty exactly when no space of the input is immediately
  followed by one of the two markers.
\<close>

theorem extract_never_raises:
  "\<exists>bits. extract_text_from_container s = Inr bits \<and> (bits = [] \<longleftrightarrow> \<not> has_marked_space s)"
  by (simp add: extract_text_scan scan_empty_iff)


theorem hide_embeds_any_character_witness:
  "length [0x32, 0x78] \<le> count_list [0x61, 0x20, 0x62, 0x20, 0x63] SPACE \<and>
   hide_text_in_container [0x32, 0x78] [0x61, 0x20, 0x62, 0x20, 0x63] =
     Inr [0x61, 0x20, ZWNJ_1, 0x62, 0x20, ZWNJ_1, 0x63] \<and>
   space_positions [0x61, 0x20, 0x62, 0x20, 0x63] = [1, 3]"
proof -
  have h: "length [0x32, 0x78] \<le> count_list [0x61, 0x20, 0x62, 0x20, 0x63] SPACE"
    by (simp add: char_defs)
  have u: "[0..<5] = [0, 1, 2, 3, 4]" by (simp add: upt_rec)
  have p: "space_positions [0x61, 0x20, 0x62, 0x20, 0x63] = [1, 3]"
    by (simp add: space_positions_def u char_defs)
  obtain out where o: "hide_text_in_container [0x32, 0x78] [0x61, 0x20, 0x62, 0x20, 0x63] = Inr out"
    and l: "length out = 7"
    and m: "\<forall>i<2. out ! (space_positions [0x61, 0x20, 0x62, 0x20, 0x63] ! i + i) = SPACE \<and>
              out ! (space_positions [0x61, 0x20, 0x62, 0x20, 0x63] ! i + i + 1) =
                (if [0x32, 0x78] ! i = c0 then ZWS_0 else ZWNJ_1)"
    using hide_embeds_any_character [OF h] by auto
  have "hide_text_in_container [0x32, 0x78] [0x61, 0x20, 0x62, 0x20, 0x63] =
     Inr [0x61, 0x20, ZWNJ_1, 0x62, 0x20, ZWNJ_1, 0x63]"
    by (simp add: hide_text_in_container_def get_capacity_def char_at_def char_defs)
  with h p show ?thesis by simp
qed

theorem extract_never_raises_witness:
  "extract_text_from_container [0x58, 0x20, 0x59, 0x20, 0x5A] = Inr [] \<and>
   \<not> has_marked_space [0x58, 0x20, 0x59, 0x20, 0x5A] \<and>
   extract_text_from_container [0x58, 0x20, 0x200B, 0x59, 0x20, 0x200C, 0x5A] = Inr [c0, c1] \<and>
   has_marked_space [0x58, 0x20, 0x200B, 0x59, 0x20, 0x200C, 0x5A]"
proof -
  have a: "extract_text_from_container [0x58, 0x20, 0x59, 0x20, 0x5A] = Inr []"
    by (simp add: extract_text_from_container_def extract_loop.simps char_at_def char_defs)
  have b: "extract_text_from_container [0x58, 0x20, 0x200B, 0x59, 0x20, 0x200C, 0x5A] = Inr [c0, c1]"
    by (simp add: extract_text_from_container_def extract_loop.simps char_at_def char_defs)
  show ?thesis
    using a b extract_never_raises [of "[0x58, 0x20, 0x59, 0x20, 0x5A]"]
      extract_never_raises [of "[0x58, 0x20, 0x200B, 0x59, 0x20, 0x200C, 0x5A]"]
    by simp
qed

section \<open>Framing codec: proofs\<close>

lemma length_fmt_08b: "length (fmt_08b b) = 8"
  by (simp add: fmt_08b_def)

lemma bit_char_cases: "bit_char b k = c0 \<or> bit_char b k = c1"
  by (simp add: bit_char_def)

lemma bit_string_fmt_08b: "bit_string (fmt_08b b)"
  by (simp add: fmt_08b_def bit_string_def bit_char_cases)

lemma bit_char_value: "(if bit_char b k = c1 then 1 else 0) = b div 2 ^ k mod 2"
  by (simp add: bit_char_def char_defs)


lemma foldl_bit_char:
  "foldl (\<lambda>a c. 2 * a + (if c = c1 then 1 else 0)) acc (map (bit_char b) (rev [0..<n])) =
     acc * 2 ^ n + b mod 2 ^ n"
proof (induction n arbitrary: acc)
  case 0
  then show ?case by simp
next
  case (Suc n)
  have "b mod 2 ^ Suc n = 2 ^ n * (b div 2 ^ n mod 2) + b mod 2 ^ n"
    using mod_mult2_eq [of b "2 ^ n" 2] by (simp add: mult.commute)
  then show ?case
    using Suc.IH [of "2 * acc + b div 2 ^ n mod 2"]
    by (simp add: bit_char_value algebra_simps)
qed

lemma rev_upt_8: "rev [0..<8] = [7, 6, 5, 4, 3, 2, 1, 0::nat]"
  by (simp add: upt_rec)

lemma int_base2_fmt_08b:
  assumes "b < 256"
  shows "int_base2 (fmt_08b b) = Inr b"
proof -
  have "foldl (\<lambda>a c. 2 * a + (if c = c1 then 1 else 0)) 0 (fmt_08b b) = b"
    unfolding fmt_08b_def rev_upt_8 [symmetric] foldl_bit_char using assms by simp
  moreover have "fmt_08b b \<noteq> []" using length_fmt_08b [of b] by auto
  ultimately show ?thesis
    using bit_string_fmt_08b [of b] by (simp add: int_base2_def)
qed


lemma bytes_to_bits_append: "bytes_to_bits (a @ b) = bytes_to_bits a @ bytes_to_bits b"
  by (simp add: bytes_to_bits_def)

lemma bytes_to_bits_Cons: "bytes_to_bits (x # xs) = fmt_08b x @ bytes_to_bits xs"
  by (simp add: bytes_to_bits_def)

lemma bytes_to_bits_Nil: "bytes_to_bits [] = []"
  by (simp add: bytes_to_bits_def)

lemma length_bytes_to_bits: "length (bytes_to_bits d) = 8 * length d"
  by (induction d) (simp_all add: bytes_to_bits_Cons bytes_to_bits_Nil length_fmt_08b)

lemma bit_string_append: "bit_string (a @ b) \<longleftrightarrow> bit_string a \<and> bit_string b"
  by (simp add: bit_string_def)

lemma bit_string_bytes_to_bits: "bit_string (bytes_to_bits d)"
proof (induction d)
  case Nil
  then show ?case by (simp add: bytes_to_bits_Nil bit_string_def)
next
  case (Cons x xs)
  then show ?case by (simp add: bytes_to_bits_Cons bit_string_append bit_string_fmt_08b)
qed

lemma drop_bytes_to_bits:
  "drop (8 * k) (bytes_to_bits d @ extra) = bytes_to_bits (drop k d) @ drop (8 * k - 8 * length d) extra"
proof (induction d arbitrary: k)
  case Nil
  then show ?case by (simp add: bytes_to_bits_Nil)
next
  case (Cons x xs)
  show ?case
  proof (cases k)
    case 0
    then show ?thesis by simp
  next
    case (Suc k')
    have "drop (8 * k) (bytes_to_bits (x # xs) @ extra) = drop (8 * k') (bytes_to_bits xs @ extra)"
      using Suc by (simp add: bytes_to_bits_Cons length_fmt_08b)
    then show ?thesis using Cons.IH [of k'] Suc by simp
  qed
qed

lemma slice_bytes_to_bits:
  assumes "k < length d"
  shows "slice (bytes_to_bits d @ extra) (8 * k) (8 * k + 8) = fmt_08b (d ! k)"
proof -
  have "drop k d = d ! k # drop (Suc k) d" using assms by (simp add: Cons_nth_drop_Suc)
  then have "drop (8 * k) (bytes_to_bits d @ extra) =
      fmt_08b (d ! k) @ (bytes_to_bits (drop (Suc k) d) @ drop (8 * k - 8 * length d) extra)"
    unfolding drop_bytes_to_bits by (simp add: bytes_to_bits_Cons)
  then show ?thesis
    unfolding slice_def by (simp add: length_fmt_08b)
qed

lemma bits_to_bytes_loop_blocks:
  assumes "\<And>k. j \<le> k \<Longrightarrow> k < n \<Longrightarrow> slice bits (8 * k) (8 * k + 8) = fmt_08b (d ! k) \<and> d ! k < 256"
  shows "bits_to_bytes_loop bits (map (\<lambda>k. 8 * k) [j..<n]) out = Inr (out @ map ((!) d) [j..<n])"
  using assms
proof (induction "n - j" arbitrary: j out)
  case 0
  then show ?case by simp
next
  case (Suc m)
  then have lt: "j < n" by simp
  have u: "[j..<n] = j # [Suc j..<n]" using lt by (simp add: upt_conv_Cons)
  have s: "slice bits (8 * j) (8 * j + 8) = fmt_08b (d ! j)" and b: "d ! j < 256"
    using Suc.prems [of j] lt by simp_all
  have m: "m = n - Suc j" using Suc.hyps(2) by simp
  have "bits_to_bytes_loop bits (map (\<lambda>k. 8 * k) [Suc j..<n]) (out @ [d ! j]) =
          Inr ((out @ [d ! j]) @ map ((!) d) [Suc j..<n])"
    using Suc.hyps(1) [OF m] Suc.prems by simp
  then show ?case
    unfolding u by (simp add: s b int_base2_fmt_08b bytearray_append_def)
qed

lemma range8_mult: "range8 (8 * n) = map (\<lambda>k. 8 * k) [0..<n]"
proof -
  have "(8 * n + 7) div 8 = n" by simp
  then show ?thesis unfolding range8_def by simp
qed

lemma bits_to_bytes_prefix:
  assumes "list_all (\<lambda>b. b < 256) d"
  shows "bits_to_bytes (bytes_to_bits d) = Inr d"
proof -
  have "bits_to_bytes_loop (bytes_to_bits d) (map (\<lambda>k. 8 * k) [0..<length d]) [] =
          Inr ([] @ map ((!) d) [0..<length d])"
  proof (rule bits_to_bytes_loop_blocks)
    fix k assume "k < length d"
    then show "slice (bytes_to_bits d) (8 * k) (8 * k + 8) = fmt_08b (d ! k) \<and> d ! k < 256"
      using slice_bytes_to_bits [of k d "[]"] assms by (simp add: list_all_length)
  qed
  then show ?thesis
    by (simp add: bits_to_bytes_def length_bytes_to_bits range8_mult map_nth)
qed


lemma div_lt: "(c::nat) < k * n \<Longrightarrow> c div n < k"
  by (rule less_mult_imp_div_less)

lemma div_ge: "k * n \<le> c \<Longrightarrow> 0 < n \<Longrightarrow> k \<le> c div (n::nat)"
  by (simp add: less_eq_div_iff_mult_less_eq)

lemma is_cont_mod: "is_cont (0x80 + x mod 64)"
proof -
  have "x mod 64 < 64" by (rule mod_less_divisor) simp
  then show ?thesis unfolding is_cont_def by linarith
qed

lemma div_4096: "(c::nat) div 4096 = c div 64 div 64"
  using div_mult2_eq [of c 64 64] by simp

lemma div_262144: "(c::nat) div 262144 = c div 4096 div 64"
  using div_mult2_eq [of c 4096 64] by simp

lemma join2: "(c::nat) div 64 * 64 + c mod 64 = c"
  by simp

lemma join3: "(c::nat) div 4096 * 4096 + c div 64 mod 64 * 64 + c mod 64 = c"
proof -
  define q where "q = c div 64"
  define a where "a = q div 64"
  define b where "b = q mod 64"
  have e: "q = a * 64 + b" unfolding a_def b_def by simp
  have "a * 4096 + b * 64 = q * 64" unfolding e by simp
  then have "c div 64 div 64 * 4096 + c div 64 mod 64 * 64 = c div 64 * 64"
    unfolding a_def b_def q_def .
  then show ?thesis unfolding div_4096 by simp
qed

lemma join4:
  "(c::nat) div 262144 * 262144 + c div 4096 mod 64 * 4096 + c div 64 mod 64 * 64 + c mod 64 = c"
proof -
  define p where "p = c div 4096"
  define a where "a = p div 64"
  define b where "b = p mod 64"
  have e: "p = a * 64 + b" unfolding a_def b_def by simp
  have "a * 262144 + b * 4096 = p * 4096" unfolding e by simp
  then have "c div 262144 * 262144 + c div 4096 mod 64 * 4096 = c div 4096 * 4096"
    unfolding a_def b_def p_def div_262144 .
  then show ?thesis using join3 [of c] by simp
qed


lemma utf8_decode_1:
  assumes "c < 0x80"
  shows "utf8_decode ([c] @ rest) = prepend c (utf8_decode rest)"
  using assms by simp

lemma utf8_decode_2:
  assumes "0x80 \<le> c" "c < 0x800"
  shows "utf8_decode ([0xC0 + c div 64, 0x80 + c mod 64] @ rest) = prepend c (utf8_decode rest)"
proof -
  define h where "h = c div 64"
  define b0 where "b0 = 0xC0 + h"
  define b1 where "b1 = 0x80 + c mod 64"
  have "h < 32" unfolding h_def using assms(2) by (intro div_lt) simp
  moreover have "2 \<le> h" unfolding h_def using assms(1) by (intro div_ge) simp_all
  ultimately have r: "\<not> b0 < 0x80" "0xC2 \<le> b0" "b0 < 0xE0" unfolding b0_def by linarith+
  have k: "is_cont b1" unfolding b1_def by (rule is_cont_mod)
  have v: "(b0 - 0xC0) * 64 + (b1 - 0x80) = c"
    unfolding b0_def b1_def h_def using join2 [of c] by simp
  have "utf8_decode (b0 # b1 # rest) = prepend c (utf8_decode rest)"
    using r k by (simp add: v)
  then show ?thesis unfolding b0_def b1_def h_def by (simp only: append_Cons append_Nil)
qed

lemma utf8_decode_3:
  assumes "0x800 \<le> c" "c < 0x10000" "is_scalar c"
  shows "utf8_decode ([0xE0 + c div 4096, 0x80 + c div 64 mod 64, 0x80 + c mod 64] @ rest) =
           prepend c (utf8_decode rest)"
proof -
  define h where "h = c div 4096"
  define b0 where "b0 = 0xE0 + h"
  define b1 where "b1 = 0x80 + c div 64 mod 64"
  define b2 where "b2 = 0x80 + c mod 64"
  have "h < 16" unfolding h_def using assms(2) by (intro div_lt) simp
  then have r: "\<not> b0 < 0x80" "\<not> (0xC2 \<le> b0 \<and> b0 < 0xE0)" "0xE0 \<le> b0" "b0 < 0xF0"
    unfolding b0_def by linarith+
  have k: "is_cont b1" "is_cont b2" unfolding b1_def b2_def by (rule is_cont_mod)+
  have v: "(b0 - 0xE0) * 4096 + (b1 - 0x80) * 64 + (b2 - 0x80) = c"
    unfolding b0_def b1_def b2_def h_def using join3 [of c] by simp
  have "utf8_decode (b0 # b1 # b2 # rest) = prepend c (utf8_decode rest)"
    using r k assms by (simp add: v)
  then show ?thesis unfolding b0_def b1_def b2_def h_def by (simp only: append_Cons append_Nil)
qed

lemma utf8_decode_4:
  assumes "0x10000 \<le> c" "c < 0x110000"
  shows "utf8_decode ([0xF0 + c div 262144, 0x80 + c div 4096 mod 64, 0x80 + c div 64 mod 64,
                       0x80 + c mod 64] @ rest) = prepend c (utf8_decode rest)"
proof -
  define h where "h = c div 262144"
  define b0 where "b0 = 0xF0 + h"
  define b1 where "b1 = 0x80 + c div 4096 mod 64"
  define b2 where "b2 = 0x80 + c div 64 mod 64"
  define b3 where "b3 = 0x80 + c mod 64"
  have "h < 5" unfolding h_def using assms(2) by (intro div_lt) simp
  then have r: "\<not> b0 < 0x80" "\<not> (0xC2 \<le> b0 \<and> b0 < 0xE0)" "\<not> (0xE0 \<le> b0 \<and> b0 < 0xF0)"
      "0xF0 \<le> b0" "b0 < 0xF5"
    unfolding b0_def by linarith+
  have k: "is_cont b1" "is_cont b2" "is_cont b3"
    unfolding b1_def b2_def b3_def by (rule is_cont_mod)+
  have v: "(b0 - 0xF0) * 262144 + (b1 - 0x80) * 4096 + (b2 - 0x80) * 64 + (b3 - 0x80) = c"
    unfolding b0_def b1_def b2_def b3_def h_def using join4 [of c] by simp
  have "utf8_decode (b0 # b1 # b2 # b3 # rest) = prepend c (utf8_decode rest)"
    using r k assms by (simp add: v)
  then show ?thesis
    unfolding b0_def b1_def b2_def b3_def h_def by (simp only: append_Cons append_Nil)
qed


lemma utf8_encode_char_cases:
  assumes "utf8_encode_char c = Inr bs"
  obtains (one) "c < 0x80" "bs = [c]"
    | (two) "0x80 \<le> c" "c < 0x800" "bs = [0xC0 + c div 64, 0x80 + c mod 64]"
    | (three) "0x800 \<le> c" "c < 0x10000" "is_scalar c"
        "bs = [0xE0 + c div 4096, 0x80 + c div 64 mod 64, 0x80 + c mod 64]"
    | (four) "0x10000 \<le> c" "c < 0x110000"
        "bs = [0xF0 + c div 262144, 0x80 + c div 4096 mod 64, 0x80 + c div 64 mod 64,
               0x80 + c mod 64]"
  using assms unfolding utf8_encode_char_def is_scalar_def
  by (auto split: if_splits)

lemma utf8_decode_encode_char:
  assumes "utf8_encode_char c = Inr bs"
  shows "utf8_decode (bs @ rest) = prepend c (utf8_decode rest)"
  using assms
proof (cases rule: utf8_encode_char_cases)
  case one
  then show ?thesis using utf8_decode_1 [of c rest] by simp
next
  case two
  then show ?thesis using utf8_decode_2 [of c rest] by simp
next
  case three
  then show ?thesis using utf8_decode_3 [of c rest] by simp
next
  case four
  then show ?thesis using utf8_decode_4 [of c rest] by simp
qed

lemma byte_mod: "0x80 + x mod 64 < (256::nat)"
proof -
  have "x mod 64 < 64" by (rule mod_less_divisor) simp
  then show ?thesis by linarith
qed

lemma utf8_encode_char_bytes:
  assumes "utf8_encode_char c = Inr bs"
  shows "list_all (\<lambda>b. b < 256) bs"
  using assms
proof (cases rule: utf8_encode_char_cases)
  case one
  then show ?thesis by simp
next
  case two
  have "c div 64 < 32" using two(2) by (intro div_lt) simp
  then have "0xC0 + c div 64 < 256" by linarith
  then show ?thesis using two(3) byte_mod by simp
next
  case three
  have "c div 4096 < 16" using three(2) by (intro div_lt) simp
  then have "0xE0 + c div 4096 < 256" by linarith
  then show ?thesis using three(4) byte_mod by simp
next
  case four
  have "c div 262144 < 5" using four(2) by (intro div_lt) simp
  then have "0xF0 + c div 262144 < 256" by linarith
  then show ?thesis using four(3) byte_mod by simp
qed

lemma utf8_round_trip:
  "utf8_encode t = Inr p \<Longrightarrow> utf8_decode p = Inr t \<and> list_all (\<lambda>b. b < 256) p"
proof (induction t arbitrary: p)
  case Nil
  then show ?case by simp
next
  case (Cons c cs)
  from Cons.prems obtain b bs where b: "utf8_encode_char c = Inr b"
    and bs: "utf8_encode cs = Inr bs" and p: "p = b @ bs"
    by (auto split: sum.splits)
  from Cons.IH [OF bs] have "utf8_decode bs = Inr cs" and "list_all (\<lambda>b. b < 256) bs" by simp_all
  then show ?case
    using utf8_decode_encode_char [OF b, of bs] utf8_encode_char_bytes [OF b]
    by (simp add: p prepend_def)
qed

lemma utf8_encode_char_scalar: "is_scalar c \<Longrightarrow> \<exists>bs. utf8_encode_char c = Inr bs"
  unfolding utf8_encode_char_def is_scalar_def by auto

lemma utf8_encode_total: "list_all is_scalar t \<Longrightarrow> \<exists>p. utf8_encode t = Inr p"
proof (induction t)
  case Nil
  then show ?case by simp
next
  case (Cons c cs)
  then obtain bs p where "utf8_encode_char c = Inr bs" "utf8_encode cs = Inr p"
    using utf8_encode_char_scalar [of c] by auto
  then show ?case by simp
qed

lemma from_to_bytes4:
  assumes "n < 2 ^ 32"
  shows "from_bytes_big [n div 2 ^ 24 mod 256, n div 2 ^ 16 mod 256, n div 2 ^ 8 mod 256, n mod 256] = n"
proof -
  have a: "n div 2 ^ 24 mod 256 = n div 2 ^ 24"
    using assms by (intro mod_less div_lt) simp
  have s: "\<And>m::nat. m div 256 * 256 + m mod 256 = m" by simp
  have d1: "n div 2 ^ 16 = n div 2 ^ 8 div 256" using div_mult2_eq [of n "2 ^ 8" 256] by simp
  have d2: "n div 2 ^ 24 = n div 2 ^ 16 div 256" using div_mult2_eq [of n "2 ^ 16" 256] by simp
  have d0: "n div 2 ^ 8 = n div 256" by simp
  have "((n div 2 ^ 24 * 256 + n div 2 ^ 16 mod 256) * 256 + n div 2 ^ 8 mod 256) * 256 + n mod 256 = n"
    unfolding d2 s d1 d0 ..
  then show ?thesis unfolding from_bytes_big_def a by simp
qed

lemma to_bytes4_big_bytes:
  assumes "to_bytes4_big n = Inr lb"
  shows "length lb = 4 \<and> list_all (\<lambda>b. b < 256) lb \<and> from_bytes_big lb = n"
proof -
  from assms have n: "n < 2 ^ 32"
    and lb: "lb = [n div 2 ^ 24 mod 256, n div 2 ^ 16 mod 256, n div 2 ^ 8 mod 256, n mod 256]"
    by (auto simp: to_bytes4_big_def split: if_splits)
  have "\<And>x::nat. x mod 256 < 256" by simp
  then have "list_all (\<lambda>b. b < 256) lb" unfolding lb by simp
  then show ?thesis using from_to_bytes4 [OF n] lb by simp
qed

lemma MAGIC_bytes: "length MAGIC = 4 \<and> list_all (\<lambda>b. b < 256) MAGIC"
  by (simp add: MAGIC_def)

lemma binary_to_text_frame:
  assumes lb: "to_bytes4_big (length payload) = Inr lb"
    and pl: "list_all (\<lambda>b. b < 256) payload"
  shows "binary_to_text (bytes_to_bits ((MAGIC @ lb) @ payload) @ extra) = utf8_decode payload"
proof -
  define header where "header = MAGIC @ lb"
  define binary where "binary = bytes_to_bits (header @ payload) @ extra"
  note l = to_bytes4_big_bytes [OF lb]
  have hl: "length header = 8" and hb: "list_all (\<lambda>b. b < 256) header"
    using l MAGIC_bytes by (simp_all add: header_def)
  have b: "binary = bytes_to_bits header @ (bytes_to_bits payload @ extra)"
    by (simp add: binary_def bytes_to_bits_append)
  have lh: "length (bytes_to_bits header) = 64" by (simp add: length_bytes_to_bits hl)
  have s1: "slice binary 0 HEADER_BITS = bytes_to_bits header"
    unfolding b slice_def HEADER_BITS_def using lh by simp
  have s2: "slice header 0 4 = MAGIC" using MAGIC_bytes by (simp add: slice_def header_def)
  have s3: "from_bytes_big (drop 4 header) = length payload"
    using l MAGIC_bytes by (simp add: header_def)
  have s4: "slice binary HEADER_BITS (HEADER_BITS + length payload * 8) = bytes_to_bits payload"
    unfolding b slice_def HEADER_BITS_def using lh by (simp add: length_bytes_to_bits)
  have "binary_to_text binary = utf8_decode payload"
    unfolding binary_to_text_def s1 bits_to_bytes_prefix [OF hb]
    by (simp add: s2 s3 s4 bits_to_bytes_prefix [OF pl])
  then show ?thesis unfolding binary_def header_def .
qed

lemma text_to_binary_Inr:
  assumes "text_to_binary t = Inr bits"
  obtains payload lb where "utf8_encode t = Inr payload" "to_bytes4_big (length payload) = Inr lb"
    "bits = bytes_to_bits ((MAGIC @ lb) @ payload)"
  using assms unfolding text_to_binary_def by (auto split: sum.splits simp: Let_def)

lemma binary_to_text_trailing:
  assumes "text_to_binary t = Inr bits"
  shows "binary_to_text (bits @ extra) = Inr t"
  using assms
proof (cases rule: text_to_binary_Inr)
  case (1 payload lb)
  from utf8_round_trip [OF 1(1)] binary_to_text_frame [OF 1(2), of extra]
  show ?thesis by (simp add: 1(3))
qed

text \<open>
  Claim C1. For every string \<open>t\<close> of Unicode scalar values (the texts UTF-8 can
  represent) the encoding succeeds, and when the payload length fits the 32-bit length
  field, \<open>text_to_binary t\<close> returns a string of \<open>'0'\<close>/\<open>'1'\<close> that
  \<open>binary_to_text\<close> maps back to \<open>t\<close>.
\<close>

theorem framing_round_trip:
  assumes "list_all is_scalar t"
  shows "\<exists>payload. utf8_encode t = Inr payload \<and>
           (length payload < 2 ^ 32 \<longrightarrow>
              (\<exists>bits. text_to_binary t = Inr bits \<and> bit_string bits \<and>
                      binary_to_text bits = Inr t))"
proof -
  from utf8_encode_total [OF assms] obtain payload where p: "utf8_encode t = Inr payload" ..
  have "\<exists>bits. text_to_binary t = Inr bits \<and> bit_string bits \<and> binary_to_text bits = Inr t"
    if "length payload < 2 ^ 32"
  proof -
    from that obtain lb where lb: "to_bytes4_big (length payload) = Inr lb"
      by (simp add: to_bytes4_big_def)
    have t: "text_to_binary t = Inr (bytes_to_bits ((MAGIC @ lb) @ payload))"
      by (simp add: text_to_binary_def p lb)
    from binary_to_text_trailing [OF t, of "[]"] t show ?thesis
      by (simp add: bit_string_bytes_to_bits)
  qed
  with p show ?thesis by blast
qed

theorem framing_round_trip_witness:
  "list_all is_scalar [0x48, 0x416] \<and> utf8_encode [0x48, 0x416] = Inr [0x48, 0xD0, 0x96] \<and>
   length [0x48, 0xD0, 0x96 :: nat] < 2 ^ 32 \<and>
   text_to_binary [0x48, 0x416] =
     Inr (bytes_to_bits [0x5A, 0x57, 0x53, 0x54, 0, 0, 0, 3, 0x48, 0xD0, 0x96]) \<and>
   binary_to_text (bytes_to_bits [0x5A, 0x57, 0x53, 0x54, 0, 0, 0, 3, 0x48, 0xD0, 0x96]) =
     Inr [0x48, 0x416]"
proof -
  have s: "list_all is_scalar [0x48, 0x416]" by (simp add: is_scalar_def)
  have e: "utf8_encode [0x48, 0x416] = Inr [0x48, 0xD0, 0x96]"
    by (simp add: utf8_encode_char_def)
  have t: "text_to_binary [0x48, 0x416] =
     Inr (bytes_to_bits [0x5A, 0x57, 0x53, 0x54, 0, 0, 0, 3, 0x48, 0xD0, 0x96])"
    unfolding text_to_binary_def e by (simp add: to_bytes4_big_def MAGIC_def)
  from framing_round_trip [OF s] t show ?thesis
    by (simp add: is_scalar_def utf8_encode_char_def)
qed

section \<open>Hiding, extraction and de-framing together\<close>

lemma scan_nonspace: "a \<noteq> SPACE \<Longrightarrow> scan (a # xs) = scan xs"
  by (cases xs) simp_all

lemma scan_marked:
  "b = c0 \<or> b = c1 \<Longrightarrow> scan (SPACE # marker_of b # xs) = b # scan xs"
  by (auto simp: marker_of_def char_defs)

lemma scan_embed:
  "bit_string bs \<Longrightarrow> length bs \<le> count_list cs SPACE \<Longrightarrow>
     scan (embed bs cs) = bs @ scan (rest_after (length bs) cs)"
proof (induction bs cs rule: embed.induct)
  case (1 bs)
  then show ?case by simp
next
  case (2 ch cs)
  then show ?case by simp
next
  case (3 b bs ch cs)
  from "3.prems"(1) have b: "b = c0 \<or> b = c1" and bs: "bit_string bs"
    by (simp_all add: bit_string_def)
  show ?case
  proof (cases "ch = SPACE")
    case True
    then have "length bs \<le> count_list cs SPACE" using "3.prems"(2) by simp
    from "3.IH"(1) [OF True bs this] True show ?thesis
      by (simp add: scan_marked [OF b] del: scan.simps)
  next
    case False
    then have "length (b # bs) \<le> count_list cs SPACE" using "3.prems"(2) by simp
    from "3.IH"(2) [OF False "3.prems"(1) this] False show ?thesis
      by (simp add: scan_nonspace del: scan.simps)
  qed
qed

lemma rest_after_drop: "\<exists>k. rest_after n cs = drop k cs"
proof (induction n cs rule: rest_after.induct)
  case (1 cs)
  have "rest_after 0 cs = drop 0 cs" by simp
  then show ?case by blast
next
  case (2 n)
  then show ?case by simp
next
  case (3 n ch cs)
  then obtain k where "rest_after (Suc n) (ch # cs) = drop k cs" by (cases "ch = SPACE") auto
  then have "rest_after (Suc n) (ch # cs) = drop (Suc k) (ch # cs)" by simp
  then show ?case by blast
qed

lemma has_marked_space_drop: "has_marked_space (drop k s) \<Longrightarrow> has_marked_space s"
proof -
  assume "has_marked_space (drop k s)"
  then obtain i where i: "Suc i < length (drop k s)" "drop k s ! i = SPACE"
      "drop k s ! Suc i = ZWS_0 \<or> drop k s ! Suc i = ZWNJ_1"
    unfolding has_marked_space_iff by blast
  then have "Suc (k + i) < length s" "s ! (k + i) = SPACE"
      "s ! Suc (k + i) = ZWS_0 \<or> s ! Suc (k + i) = ZWNJ_1"
    by (auto simp: nth_drop)
  then show ?thesis unfolding has_marked_space_iff by blast
qed

lemma scan_rest_after: "\<not> has_marked_space cs \<Longrightarrow> scan (rest_after n cs) = []"
  using rest_after_drop [of n cs] has_marked_space_drop [of _ cs]
  by (auto simp: scan_empty_iff)

lemma count_list_replicate: "count_list (replicate n x) x = n"
  by (induction n) simp_all

text \<open>
  Claim C3, as the code has it. Whenever \<open>text_to_binary t\<close> returns \<open>bits\<close> and the
  carrier has at least \<open>length bits\<close> spaces, hiding succeeds and extraction from the
  result returns \<open>bits\<close> followed by whatever extraction finds in the part of the carrier
  after its first \<open>length bits\<close> spaces. So the extracted string is \<open>bits\<close> itself when
  the carrier holds no space immediately followed by a marker character, and in every case
  de-framing the extracted string yields \<open>t\<close>.
\<close>

theorem hide_extract_round_trip:
  assumes "text_to_binary t = Inr bits" and "length bits \<le> count_list carrier SPACE"
  shows "\<exists>stego extracted extra.
           hide_text_in_container bits carrier = Inr stego \<and>
           extract_text_from_container stego = Inr extracted \<and>
           extract_text_from_container (rest_after (length bits) carrier) = Inr extra \<and>
           extracted = bits @ extra \<and>
           (\<not> has_marked_space carrier \<longrightarrow> extracted = bits) \<and>
           binary_to_text extracted = Inr t"
proof -
  have b: "bit_string bits"
    using assms(1) by (cases rule: text_to_binary_Inr) (simp add: bit_string_bytes_to_bits)
  have h: "hide_text_in_container bits carrier = Inr (embed bits carrier)"
    using assms(2) by (simp add: hide_text_embed)
  have e: "extract_text_from_container (embed bits carrier) =
             Inr (bits @ scan (rest_after (length bits) carrier))"
    by (simp add: extract_text_scan scan_embed [OF b assms(2)])
  have x: "extract_text_from_container (rest_after (length bits) carrier) =
             Inr (scan (rest_after (length bits) carrier))"
    by (rule extract_text_scan)
  show ?thesis
    using h e x scan_rest_after [of carrier "length bits"]
      binary_to_text_trailing [OF assms(1), of "scan (rest_after (length bits) carrier)"]
    by auto
qed

theorem hide_extract_round_trip_witness:
  "text_to_binary [] = Inr (bytes_to_bits (MAGIC @ [0, 0, 0, 0])) \<and>
   length (bytes_to_bits (MAGIC @ [0, 0, 0, 0])) \<le> count_list (replicate 64 SPACE) SPACE \<and>
   \<not> has_marked_space (replicate 64 SPACE) \<and>
   (\<exists>stego. hide_text_in_container (bytes_to_bits (MAGIC @ [0, 0, 0, 0])) (replicate 64 SPACE) =
               Inr stego \<and>
            extract_text_from_container stego = Inr (bytes_to_bits (MAGIC @ [0, 0, 0, 0]))) \<and>
   binary_to_text (bytes_to_bits (MAGIC @ [0, 0, 0, 0])) = Inr []"
proof -
  have t: "text_to_binary [] = Inr (bytes_to_bits (MAGIC @ [0, 0, 0, 0]))"
    by (simp add: text_to_binary_def to_bytes4_big_def)
  have l: "length (bytes_to_bits (MAGIC @ [0, 0, 0, 0])) \<le> count_list (replicate 64 SPACE) SPACE"
    by (simp add: length_bytes_to_bits count_list_replicate MAGIC_def)
  have n: "\<not> has_marked_space (replicate 64 SPACE)"
    unfolding has_marked_space_iff by (auto simp: char_defs)
  from hide_extract_round_trip [OF t l] n binary_to_text_trailing [OF t, of "[]"] t l
  show ?thesis by auto
qed

text \<open>
  Without the condition on the carrier the extracted string can differ from the embedded
  one: the empty text frames to 64 bits, and a carrier of 65 spaces whose last space is
  already followed by \<open>ZWS_0\<close> gives back those 64 bits and one more.
\<close>

theorem hide_extract_extra_bit:
  "text_to_binary [] = Inr (bytes_to_bits (MAGIC @ [0, 0, 0, 0])) \<and>
   length (bytes_to_bits (MAGIC @ [0, 0, 0, 0])) \<le>
     count_list (replicate 64 SPACE @ [SPACE, ZWS_0]) SPACE \<and>
   hide_text_in_container (bytes_to_bits (MAGIC @ [0, 0, 0, 0]))
     (replicate 64 SPACE @ [SPACE, ZWS_0]) = Inr
     [32, 8203, 32, 8204, 32, 8203, 32, 8204, 32, 8204, 32, 8203, 32, 8204, 32, 8203, 32,
      8203, 32, 8204, 32, 8203, 32, 8204, 32, 8203, 32, 8204, 32, 8204, 32, 8204, 32, 8203,
      32, 8204, 32, 8203, 32, 8204, 32, 8203, 32, 8203, 32, 8204, 32, 8204, 32, 8203, 32,
      8204, 32, 8203, 32, 8204, 32, 8203, 32, 8204, 32, 8203, 32, 8203, 32, 8203, 32, 8203,
      32, 8203, 32, 8203, 32, 8203, 32, 8203, 32, 8203, 32, 8203, 32, 8203, 32, 8203, 32,
      8203, 32, 8203, 32, 8203, 32, 8203, 32, 8203, 32, 8203, 32, 8203, 32, 8203, 32, 8203,
      32, 8203, 32, 8203, 32, 8203, 32, 8203, 32, 8203, 32, 8203, 32, 8203, 32, 8203, 32,
      8203, 32, 8203, 32, 8203, 32, 8203, 32, 8203, 32, 8203] \<and>
   extract_text_from_container
     [32, 8203, 32, 8204, 32, 8203, 32, 8204, 32, 8204, 32, 8203, 32, 8204, 32, 8203, 32,
      8203, 32, 8204, 32, 8203, 32, 8204, 32, 8203, 32, 8204, 32, 8204, 32, 8204, 32, 8203,
      32, 8204, 32, 8203, 32, 8204, 32, 8203, 32, 8203, 32, 8204, 32, 8204, 32, 8203, 32,
      8204, 32, 8203, 32, 8204, 32, 8203, 32, 8204, 32, 8203, 32, 8203, 32, 8203, 32, 8203,
      32, 8203, 32, 8203, 32, 8203, 32, 8203, 32, 8203, 32, 8203, 32, 8203, 32, 8203, 32,
      8203, 32, 8203, 32, 8203, 32, 8203, 32, 8203, 32, 8203, 32, 8203, 32, 8203, 32, 8203,
      32, 8203, 32, 8203, 32, 8203, 32, 8203, 32, 8203, 32, 8203, 32, 8203, 32, 8203, 32,
      8203, 32, 8203, 32, 8203, 32, 8203, 32, 8203, 32, 8203] = Inr (bytes_to_bits (MAGIC @ [0, 0, 0, 0]) @ [c0]) \<and>
   bytes_to_bits (MAGIC @ [0, 0, 0, 0]) @ [c0] \<noteq> bytes_to_bits (MAGIC @ [0, 0, 0, 0])"
proof -
  have b: "bytes_to_bits (MAGIC @ [0, 0, 0, 0]) =
     [48, 49, 48, 49, 49, 48, 49, 48, 48, 49, 48, 49, 48, 49, 49, 49, 48, 49, 48, 49, 48,
      48, 49, 49, 48, 49, 48, 49, 48, 49, 48, 48, 48, 48, 48, 48, 48, 48, 48, 48, 48, 48,
      48, 48, 48, 48, 48, 48, 48, 48, 48, 48, 48, 48, 48, 48, 48, 48, 48, 48, 48, 48, 48, 48]"
    by (simp add: MAGIC_def bytes_to_bits_def fmt_08b_def bit_char_def char_defs)
  have t: "text_to_binary [] = Inr (bytes_to_bits (MAGIC @ [0, 0, 0, 0]))"
    by (simp add: text_to_binary_def to_bytes4_big_def)
  have c: "count_list (replicate 64 SPACE @ [SPACE, ZWS_0]) SPACE = 65"
    by (simp add: count_list_replicate char_defs)
  have l: "length (bytes_to_bits (MAGIC @ [0, 0, 0, 0])) = 64"
    by (simp add: length_bytes_to_bits MAGIC_def)
  have n: "replicate 64 SPACE = [SPACE, SPACE, SPACE, SPACE, SPACE, SPACE, SPACE, SPACE, SPACE, SPACE, SPACE, SPACE, SPACE, SPACE, SPACE, SPACE, SPACE, SPACE, SPACE, SPACE, SPACE, SPACE, SPACE, SPACE, SPACE, SPACE, SPACE, SPACE, SPACE, SPACE, SPACE, SPACE, SPACE, SPACE, SPACE, SPACE, SPACE, SPACE, SPACE, SPACE, SPACE, SPACE, SPACE, SPACE, SPACE, SPACE, SPACE, SPACE, SPACE, SPACE, SPACE, SPACE, SPACE, SPACE, SPACE, SPACE, SPACE, SPACE, SPACE, SPACE, SPACE, SPACE, SPACE, SPACE]"
    by (simp add: numeral_eq_Suc char_defs)
  have h: "hide_text_in_container (bytes_to_bits (MAGIC @ [0, 0, 0, 0]))
     (replicate 64 SPACE @ [SPACE, ZWS_0]) = Inr
     [32, 8203, 32, 8204, 32, 8203, 32, 8204, 32, 8204, 32, 8203, 32, 8204, 32, 8203, 32,
      8203, 32, 8204, 32, 8203, 32, 8204, 32, 8203, 32, 8204, 32, 8204, 32, 8204, 32, 8203,
      32, 8204, 32, 8203, 32, 8204, 32, 8203, 32, 8203, 32, 8204, 32, 8204, 32, 8203, 32,
      8204, 32, 8203, 32, 8204, 32, 8203, 32, 8204, 32, 8203, 32, 8203, 32, 8203, 32, 8203,
      32, 8203, 32, 8203, 32, 8203, 32, 8203, 32, 8203, 32, 8203, 32, 8203, 32, 8203, 32,
      8203, 32, 8203, 32, 8203, 32, 8203, 32, 8203, 32, 8203, 32, 8203, 32, 8203, 32, 8203,
      32, 8203, 32, 8203, 32, 8203, 32, 8203, 32, 8203, 32, 8203, 32, 8203, 32, 8203, 32,
      8203, 32, 8203, 32, 8203, 32, 8203, 32, 8203, 32, 8203]"
    unfolding hide_text_embed c l b n by (simp add: marker_of_def char_defs)
  have e: "extract_text_from_container
     [32, 8203, 32, 8204, 32, 8203, 32, 8204, 32, 8204, 32, 8203, 32, 8204, 32, 8203, 32,
      8203, 32, 8204, 32, 8203, 32, 8204, 32, 8203, 32, 8204, 32, 8204, 32, 8204, 32, 8203,
      32, 8204, 32, 8203, 32, 8204, 32, 8203, 32, 8203, 32, 8204, 32, 8204, 32, 8203, 32,
      8204, 32, 8203, 32, 8204, 32, 8203, 32, 8204, 32, 8203, 32, 8203, 32, 8203, 32, 8203,
      32, 8203, 32, 8203, 32, 8203, 32, 8203, 32, 8203, 32, 8203, 32, 8203, 32, 8203, 32,
      8203, 32, 8203, 32, 8203, 32, 8203, 32, 8203, 32, 8203, 32, 8203, 32, 8203, 32, 8203,
      32, 8203, 32, 8203, 32, 8203, 32, 8203, 32, 8203, 32, 8203, 32, 8203, 32, 8203, 32,
      8203, 32, 8203, 32, 8203, 32, 8203, 32, 8203, 32, 8203] = Inr (bytes_to_bits (MAGIC @ [0, 0, 0, 0]) @ [c0])"
    unfolding extract_text_scan b by (simp add: char_defs)
  from t c l h e show ?thesis by simp
qed

text \<open>
  Claim C5 at a failing input. The 32 bits of the magic bytes alone are a bit string shorter
  than the header, and \<open>binary_to_text\<close> returns the empty text for them instead of
  raising: both slices are clamped, the missing length field reads as 0.
\<close>

theorem binary_to_text_short_header:
  "bytes_to_bits MAGIC =
     [c0, c1, c0, c1, c1, c0, c1, c0, c0, c1, c0, c1, c0, c1, c1, c1,
      c0, c1, c0, c1, c0, c0, c1, c1, c0, c1, c0, c1, c0, c1, c0, c0] \<and>
   bit_string (bytes_to_bits MAGIC) \<and>
   length (bytes_to_bits MAGIC) < HEADER_BITS \<and>
   binary_to_text (bytes_to_bits MAGIC) = Inr []"
proof -
  have v: "bytes_to_bits MAGIC =
     [c0, c1, c0, c1, c1, c0, c1, c0, c0, c1, c0, c1, c0, c1, c1, c1,
      c0, c1, c0, c1, c0, c0, c1, c1, c0, c1, c0, c1, c0, c1, c0, c0]"
    by (simp add: MAGIC_def bytes_to_bits_def fmt_08b_def bit_char_def)
  have l: "length (bytes_to_bits MAGIC) = 32" by (simp add: length_bytes_to_bits MAGIC_def)
  have s1: "slice (bytes_to_bits MAGIC) 0 HEADER_BITS = bytes_to_bits MAGIC"
    by (simp add: slice_def HEADER_BITS_def l)
  have s2: "slice (bytes_to_bits MAGIC) HEADER_BITS HEADER_BITS = []"
    by (simp add: slice_def)
  have m: "bits_to_bytes (bytes_to_bits MAGIC) = Inr MAGIC"
    using MAGIC_bytes by (intro bits_to_bytes_prefix) simp
  have e: "bits_to_bytes [] = Inr []" by (simp add: bits_to_bytes_def range8_def)
  have f: "from_bytes_big (drop 4 MAGIC) = 0" "slice MAGIC 0 4 = MAGIC"
    by (simp_all add: MAGIC_def from_bytes_big_def slice_def)
  have "binary_to_text (bytes_to_bits MAGIC) = Inr []"
    unfolding binary_to_text_def s1 m by (simp add: f s2 e)
  moreover have "length (bytes_to_bits MAGIC) < HEADER_BITS" by (simp add: l HEADER_BITS_def)
  ultimately show ?thesis using v bit_string_bytes_to_bits [of MAGIC] by blast
qed

text \<open>
  Claim C6 at a failing input. The header is valid and declares 5 payload bytes, only 8 bits
  follow it, and \<open>binary_to_text\<close> returns the one-character text \<open>"A"\<close> instead of
  raising.
\<close>

theorem binary_to_text_short_payload:
  "bit_string (bytes_to_bits (MAGIC @ [0, 0, 0, 5] @ [0x41])) \<and>
   bits_to_bytes (slice (bytes_to_bits (MAGIC @ [0, 0, 0, 5] @ [0x41])) 0 HEADER_BITS) =
     Inr (MAGIC @ [0, 0, 0, 5]) \<and>
   from_bytes_big [0, 0, 0, 5] = 5 \<and>
   length (bytes_to_bits (MAGIC @ [0, 0, 0, 5] @ [0x41])) - HEADER_BITS = 8 \<and>
   binary_to_text (bytes_to_bits (MAGIC @ [0, 0, 0, 5] @ [0x41])) = Inr [0x41]"
proof -
  define header :: bytes where "header = MAGIC @ [0, 0, 0, 5]"
  define binary where "binary = bytes_to_bits (header @ [0x41])"
  have hb: "list_all (\<lambda>b. b < 256) header" "length header = 8"
    by (simp_all add: header_def MAGIC_def)
  have lh: "length (bytes_to_bits header) = 64" by (simp add: length_bytes_to_bits hb)
  have b: "binary = bytes_to_bits header @ bytes_to_bits [0x41]"
    by (simp add: binary_def bytes_to_bits_append)
  have s1: "slice binary 0 HEADER_BITS = bytes_to_bits header"
    unfolding b slice_def HEADER_BITS_def using lh by simp
  have h: "bits_to_bytes (bytes_to_bits header) = Inr header"
    by (rule bits_to_bytes_prefix [OF hb(1)])
  have f: "from_bytes_big (drop 4 header) = 5" "slice header 0 4 = MAGIC"
    "from_bytes_big [0, 0, 0, 5] = 5"
    by (simp_all add: header_def MAGIC_def from_bytes_big_def slice_def)
  have s2: "slice binary HEADER_BITS (HEADER_BITS + 40) = bytes_to_bits [0x41]"
    unfolding b slice_def HEADER_BITS_def using lh by (simp add: length_bytes_to_bits)
  have p: "bits_to_bytes (bytes_to_bits [0x41]) = Inr [0x41]"
    by (intro bits_to_bytes_prefix) simp
  have r: "binary_to_text binary = Inr [0x41]"
    unfolding binary_to_text_def s1 h by (simp add: f s2 p prepend_def)
  have l: "length binary - HEADER_BITS = 8"
    unfolding b by (simp add: length_bytes_to_bits hb HEADER_BITS_def)
  from r l s1 h f(3) show ?thesis
    unfolding binary_def header_def by (simp add: bit_string_bytes_to_bits)
qed

section \<open>Cipher and key validation: proofs\<close>

lemma length_LETTERS: "length LETTERS = 71"
  by (simp add: LETTERS_def)

lemma distinct_LETTERS: "distinct LETTERS"
  by (simp add: LETTERS_def)

lemma utils_LETTERS_eq: "utils_LETTERS = LETTERS"
  by (simp add: LETTERS_def utils_LETTERS_def)

lemma enumerate_dict_snoc:
  "enumerate_dict (xs @ [x]) = (enumerate_dict xs)(x \<mapsto> length xs)"
  by (simp add: enumerate_dict_def enumerate_append_eq)

lemma enumerate_dict_Nil: "enumerate_dict [] = Map.empty"
  by (simp add: enumerate_dict_def)

lemma enumerate_dict_None: "enumerate_dict xs c = None \<longleftrightarrow> c \<notin> set xs"
  by (induction xs rule: rev_induct) (simp_all add: enumerate_dict_snoc enumerate_dict_Nil)

lemma enumerate_dict_nth:
  "distinct xs \<Longrightarrow> i < length xs \<Longrightarrow> enumerate_dict xs (xs ! i) = Some i"
proof (induction xs rule: rev_induct)
  case Nil
  then show ?case by simp
next
  case (snoc x xs)
  show ?case
  proof (cases "i < length xs")
    case True
    then have "xs ! i \<noteq> x" using snoc.prems(1) by auto
    then show ?thesis using snoc True by (simp add: enumerate_dict_snoc nth_append)
  next
    case False
    then have "i = length xs" using snoc.prems(2) by simp
    then show ?thesis by (simp add: enumerate_dict_snoc)
  qed
qed

lemma enumerate_dict_Some:
  assumes "distinct xs" "enumerate_dict xs c = Some i"
  shows "i < length xs \<and> xs ! i = c"
proof -
  from assms(2) have "c \<in> set xs" using enumerate_dict_None [of xs c] by auto
  then obtain j where j: "j < length xs" "xs ! j = c" by (auto simp: in_set_conv_nth)
  with enumerate_dict_nth [OF assms(1) j(1)] assms(2) show ?thesis by simp
qed


lemma index_None: "enumerate_dict LETTERS c \<noteq> None \<longleftrightarrow> c \<in> set LETTERS"
  by (simp add: enumerate_dict_None)

lemma index_nth: "i < length LETTERS \<Longrightarrow> enumerate_dict LETTERS (LETTERS ! i) = Some i"
  by (rule enumerate_dict_nth [OF distinct_LETTERS])

lemma index_Some:
  "enumerate_dict LETTERS c = Some i \<Longrightarrow> i < length LETTERS \<and> LETTERS ! i = c"
  by (rule enumerate_dict_Some [OF distinct_LETTERS])

lemma index_member:
  assumes "c \<in> set LETTERS"
  obtains i where "enumerate_dict LETTERS c = Some i" "i < length LETTERS" "LETTERS ! i = c"
proof -
  from assms obtain i where "enumerate_dict LETTERS c = Some i"
    using index_None [of c] by auto
  with index_Some [OF this] that show ?thesis by blast
qed

lemma key_shift:
  assumes "kf \<noteq> []" "set kf \<subseteq> set LETTERS"
  obtains s where "s < length LETTERS"
    and "py_mod (int key_i) (length kf) = Inr (key_i mod length kf)"
    and "char_at kf (key_i mod length kf) = Inr (kf ! (key_i mod length kf))"
    and "dict_get (enumerate_dict LETTERS) (kf ! (key_i mod length kf)) = Inr s"
proof -
  have l: "key_i mod length kf < length kf" using assms(1) by simp
  then have "kf ! (key_i mod length kf) \<in> set LETTERS" using assms(2) by auto
  then obtain s where s: "enumerate_dict LETTERS (kf ! (key_i mod length kf)) = Some s"
    "s < length LETTERS" by (rule index_member)
  have "py_mod (int key_i) (length kf) = Inr (key_i mod length kf)"
    using assms(1) by (simp add: py_mod_def zmod_int [symmetric])
  moreover have "char_at kf (key_i mod length kf) = Inr (kf ! (key_i mod length kf))"
    using l by (simp add: char_at_def)
  moreover have "dict_get (enumerate_dict LETTERS) (kf ! (key_i mod length kf)) = Inr s"
    using s by (simp add: dict_get_def)
  ultimately show ?thesis using that s(2) by blast
qed

lemma shift_back:
  assumes "c < n"
  shows "nat ((int ((c + s) mod n) - int s) mod int n) = c"
proof -
  have "(int ((c + s) mod n) - int s) mod int n = ((int c + int s) mod int n - int s) mod int n"
    by (simp add: zmod_int)
  also have "\<dots> = (int c + int s - int s) mod int n" by (rule mod_diff_left_eq)
  also have "\<dots> = int c" using assms by simp
  finally show ?thesis by simp
qed

lemma encrypt_decrypt_char:
  assumes kf: "kf \<noteq> []" "set kf \<subseteq> set LETTERS" and ch: "ch \<in> set LETTERS"
  shows "\<exists>l. encrypt_char kf (enumerate_dict LETTERS) (length LETTERS) key_i ch = Inr l \<and>
             l \<in> set LETTERS \<and>
             decrypt_char kf (enumerate_dict LETTERS) (length LETTERS) key_i l = Inr ch"
proof -
  obtain s where s: "s < length LETTERS"
    "py_mod (int key_i) (length kf) = Inr (key_i mod length kf)"
    "char_at kf (key_i mod length kf) = Inr (kf ! (key_i mod length kf))"
    "dict_get (enumerate_dict LETTERS) (kf ! (key_i mod length kf)) = Inr s"
    using kf by (rule key_shift)
  obtain ci where ci: "enumerate_dict LETTERS ch = Some ci" "ci < length LETTERS"
    "LETTERS ! ci = ch" using ch by (rule index_member)
  define q where "q = (ci + s) mod length LETTERS"
  have n: "length LETTERS \<noteq> 0" by (simp add: length_LETTERS)
  have q: "q < length LETTERS" unfolding q_def using n by simp
  have "(int ci + int s) mod int (length LETTERS) = int q"
    unfolding q_def by (simp add: zmod_int)
  then have pq: "py_mod (int ci + int s) (length LETTERS) = Inr q"
    using n by (simp add: py_mod_def)
  have gc: "dict_get (enumerate_dict LETTERS) ch = Inr ci" by (simp add: dict_get_def ci)
  have gq: "dict_get (enumerate_dict LETTERS) (LETTERS ! q) = Inr q"
    by (simp add: dict_get_def index_nth [OF q])
  have lq: "char_at LETTERS q = Inr (LETTERS ! q)" by (simp add: char_at_def q)
  have lc: "char_at LETTERS ci = Inr ch" by (simp add: char_at_def ci)
  have e: "encrypt_char kf (enumerate_dict LETTERS) (length LETTERS) key_i ch = Inr (LETTERS ! q)"
    unfolding encrypt_char_def by (simp add: ebind_def s gc pq lq)
  have bk: "py_mod (int q - int s) (length LETTERS) = Inr ci"
    using n shift_back [OF ci(2), of s] by (simp add: py_mod_def q_def)
  have d: "decrypt_char kf (enumerate_dict LETTERS) (length LETTERS) key_i (LETTERS ! q) = Inr ch"
    unfolding decrypt_char_def by (simp add: ebind_def s gq bk lc)
  from e d q show ?thesis by simp
qed

lemma decrypt_char_total:
  assumes kf: "kf \<noteq> []" "set kf \<subseteq> set LETTERS" and ch: "ch \<in> set LETTERS"
  shows "\<exists>l. decrypt_char kf (enumerate_dict LETTERS) (length LETTERS) key_i ch = Inr l"
proof -
  obtain s where s: "s < length LETTERS"
    "py_mod (int key_i) (length kf) = Inr (key_i mod length kf)"
    "char_at kf (key_i mod length kf) = Inr (kf ! (key_i mod length kf))"
    "dict_get (enumerate_dict LETTERS) (kf ! (key_i mod length kf)) = Inr s"
    using kf by (rule key_shift)
  obtain ci where ci: "enumerate_dict LETTERS ch = Some ci" using ch by (rule index_member)
  have n: "0 < length LETTERS" by (simp add: length_LETTERS)
  define q where "q = nat ((int ci - int s) mod int (length LETTERS))"
  have q: "q < length LETTERS" unfolding q_def using n by (simp add: nat_less_iff)
  have pq: "py_mod (int ci - int s) (length LETTERS) = Inr q"
    using n by (simp add: py_mod_def q_def)
  have gc: "dict_get (enumerate_dict LETTERS) ch = Inr ci" by (simp add: dict_get_def ci)
  have lq: "char_at LETTERS q = Inr (LETTERS ! q)" by (simp add: char_at_def q)
  show ?thesis
    unfolding decrypt_char_def by (simp add: ebind_def s gc pq lq)
qed


lemma decrypt_loop_total:
  assumes "kf \<noteq> []" "set kf \<subseteq> set LETTERS"
  shows "\<exists>r. decrypt_loop kf (enumerate_dict LETTERS) (length LETTERS) msg key_i out = Inr r"
proof (induction msg arbitrary: key_i out)
  case Nil
  then show ?case by simp
next
  case (Cons ch rest)
  show ?case
  proof (cases "ch \<in> set LETTERS")
    case True
    from decrypt_char_total [OF assms True, where key_i = key_i] obtain l
      where "decrypt_char kf (enumerate_dict LETTERS) (length LETTERS) key_i ch = Inr l" ..
    then show ?thesis using True Cons.IH [of "key_i + 1" "out @ [l]"]
      by (simp add: enumerate_dict_None)
  next
    case False
    then show ?thesis using Cons.IH [of key_i "out @ [ch]"] by (simp add: enumerate_dict_None)
  qed
qed

lemma cipher_loops:
  assumes "kf \<noteq> []" "set kf \<subseteq> set LETTERS"
  shows "\<exists>r. encrypt_loop kf (enumerate_dict LETTERS) (length LETTERS) msg key_i out = Inr (out @ r) \<and>
             set r \<subseteq> set LETTERS \<union> set msg \<and>
             (\<forall>out'. decrypt_loop kf (enumerate_dict LETTERS) (length LETTERS) r key_i out' =
                      Inr (out' @ msg))"
proof (induction msg arbitrary: key_i out)
  case Nil
  then show ?case by simp
next
  case (Cons ch rest)
  show ?case
  proof (cases "ch \<in> set LETTERS")
    case True
    from encrypt_decrypt_char [OF assms True, where key_i = key_i] obtain l
      where l: "encrypt_char kf (enumerate_dict LETTERS) (length LETTERS) key_i ch = Inr l"
        "l \<in> set LETTERS"
        "decrypt_char kf (enumerate_dict LETTERS) (length LETTERS) key_i l = Inr ch"
      by blast
    from Cons.IH [of "key_i + 1" "out @ [l]"] obtain r
      where r: "encrypt_loop kf (enumerate_dict LETTERS) (length LETTERS) rest (key_i + 1) (out @ [l]) =
                  Inr ((out @ [l]) @ r)"
        "set r \<subseteq> set LETTERS \<union> set rest"
        "\<And>out'. decrypt_loop kf (enumerate_dict LETTERS) (length LETTERS) r (key_i + 1) out' =
                  Inr (out' @ rest)"
      by blast
    have "encrypt_loop kf (enumerate_dict LETTERS) (length LETTERS) (ch # rest) key_i out =
            Inr (out @ l # r)"
      using True l(1) r(1) by (simp add: enumerate_dict_None)
    moreover have "set (l # r) \<subseteq> set LETTERS \<union> set (ch # rest)" using l(2) r(2) by auto
    moreover have "decrypt_loop kf (enumerate_dict LETTERS) (length LETTERS) (l # r) key_i out' =
            Inr (out' @ ch # rest)" for out'
      using l(2) l(3) r(3) [of "out' @ [ch]"] by (simp add: enumerate_dict_None)
    ultimately show ?thesis by blast
  next
    case False
    from Cons.IH [of key_i "out @ [ch]"] obtain r
      where r: "encrypt_loop kf (enumerate_dict LETTERS) (length LETTERS) rest key_i (out @ [ch]) =
                  Inr ((out @ [ch]) @ r)"
        "set r \<subseteq> set LETTERS \<union> set rest"
        "\<And>out'. decrypt_loop kf (enumerate_dict LETTERS) (length LETTERS) r key_i out' =
                  Inr (out' @ rest)"
      by blast
    have "encrypt_loop kf (enumerate_dict LETTERS) (length LETTERS) (ch # rest) key_i out =
            Inr (out @ ch # r)"
      using False r(1) by (simp add: enumerate_dict_None)
    moreover have "set (ch # r) \<subseteq> set LETTERS \<union> set (ch # rest)" using r(2) by auto
    moreover have "decrypt_loop kf (enumerate_dict LETTERS) (length LETTERS) (ch # r) key_i out' =
            Inr (out' @ ch # rest)" for out'
      using False r(3) [of "out' @ [ch]"] by (simp add: enumerate_dict_None)
    ultimately show ?thesis by blast
  qed
qed

lemma filter_index: "filter (\<lambda>ch. enumerate_dict LETTERS ch \<noteq> None) s = filter (\<lambda>ch. ch \<in> set LETTERS) s"
  by (simp add: enumerate_dict_None)

lemma prepare_key_cases:
  "prepare_key up key =
     (if key = [] then Inl (ValueError KeyEmpty)
      else if filter (\<lambda>ch. ch \<in> set LETTERS) (upper up key) = [] then Inl (ValueError KeyNoValidChars)
      else Inr (filter (\<lambda>ch. ch \<in> set LETTERS) (upper up key), enumerate_dict LETTERS, length LETTERS))"
  unfolding prepare_key_def Let_def filter_index by simp

lemma upper_fixed: "\<forall>d\<in>set r. up d = [d] \<Longrightarrow> upper up r = r"
  unfolding upper_def by (induction r) simp_all

lemma upper_idem: "\<forall>c. \<forall>d\<in>set (up c). up d = [d] \<Longrightarrow> \<forall>d\<in>set (upper up t). up d = [d]"
  unfolding upper_def by auto

text \<open>
  Claim C2. Let the uppercase table leave every letter of the alphabet unchanged and be
  idempotent (every code point it produces is mapped to itself), as the Unicode table is.
  Then for every text \<open>t\<close> and key \<open>k\<close> on which \<open>vigenere_encrypt\<close> returns,
  decrypting the result with \<open>k\<close> returns the uppercased \<open>t\<close>.
\<close>

theorem vigenere_round_trip:
  assumes fixed: "\<forall>c\<in>set LETTERS. up c = [c]"
    and idem: "\<forall>c. \<forall>d\<in>set (up c). up d = [d]"
    and enc: "vigenere_encrypt up t k = Inr e"
  shows "vigenere_decrypt up e k = Inr (upper up t)"
proof -
  define kf where "kf = filter (\<lambda>ch. ch \<in> set LETTERS) (upper up k)"
  from enc have pk: "prepare_key up k = Inr (kf, enumerate_dict LETTERS, length LETTERS)"
    and kf: "kf \<noteq> []"
    unfolding vigenere_encrypt_def kf_def prepare_key_cases [of up k]
    by (auto split: if_splits)
  have sub: "set kf \<subseteq> set LETTERS" unfolding kf_def by auto
  from cipher_loops [OF kf sub, of "upper up t" 0 "[]"] obtain r
    where r: "encrypt_loop kf (enumerate_dict LETTERS) (length LETTERS) (upper up t) 0 [] = Inr r"
      "set r \<subseteq> set LETTERS \<union> set (upper up t)"
      "decrypt_loop kf (enumerate_dict LETTERS) (length LETTERS) r 0 [] = Inr (upper up t)"
    by fastforce
  from enc r(1) have e: "e = r" by (simp add: vigenere_encrypt_def pk)
  have "\<forall>d\<in>set r. up d = [d]" using r(2) fixed upper_idem [OF idem, of t] by blast
  then have "upper up r = r" by (rule upper_fixed)
  then show ?thesis using r(3) by (simp add: vigenere_decrypt_def pk e)
qed

text \<open>
  Claim C7. For every text, key and uppercase table: if the key is empty or no character of
  the uppercased key is in the alphabet, \<open>vigenere_encrypt\<close> and \<open>vigenere_decrypt\<close> both
  raise the same key \<open>ValueError\<close>; otherwise both return (no lookup of the loop raises).
\<close>

theorem vigenere_invalid_key:
  "(k = [] \<or> filter (\<lambda>ch. ch \<in> set LETTERS) (upper up k) = [] \<longrightarrow>
      (\<exists>v. v \<in> {KeyEmpty, KeyNoValidChars} \<and>
           vigenere_encrypt up t k = Inl (ValueError v) \<and>
           vigenere_decrypt up t k = Inl (ValueError v))) \<and>
   (\<not> (k = [] \<or> filter (\<lambda>ch. ch \<in> set LETTERS) (upper up k) = []) \<longrightarrow>
      (\<exists>r. vigenere_encrypt up t k = Inr r) \<and> (\<exists>r. vigenere_decrypt up t k = Inr r))"
proof -
  define kf where "kf = filter (\<lambda>ch. ch \<in> set LETTERS) (upper up k)"
  have sub: "set kf \<subseteq> set LETTERS" unfolding kf_def by auto
  have "\<exists>r. encrypt_loop kf (enumerate_dict LETTERS) (length LETTERS) (upper up t) 0 [] = Inr r"
    if "kf \<noteq> []"
    using cipher_loops [OF that sub, of "upper up t" 0 "[]"] by auto
  moreover have "\<exists>r. decrypt_loop kf (enumerate_dict LETTERS) (length LETTERS) (upper up t) 0 [] = Inr r"
    if "kf \<noteq> []"
    using decrypt_loop_total [OF that sub] by auto
  ultimately show ?thesis
    unfolding vigenere_encrypt_def vigenere_decrypt_def prepare_key_cases [of up k] kf_def [symmetric]
    by auto
qed

text \<open>
  Claim C8. \<open>validate_key\<close> holds exactly for the non-empty keys all of whose uppercased
  characters are in the alphabet; every key it accepts is accepted by \<open>_prepare_key\<close>,
  and not conversely: \<open>"A!"\<close> is rejected by \<open>validate_key\<close> while \<open>_prepare_key\<close>
  keeps its \<open>"A"\<close>. The uppercase table enters through what it does on the alphabet and
  on \<open>"!"\<close>, and through mapping no code point to the empty string.
\<close>

theorem validate_key_strict:
  assumes fixed: "\<forall>c\<in>set LETTERS. up c = [c]"
    and bang: "up 0x21 = [0x21]"
    and nonempty: "\<forall>c. up c \<noteq> []"
  shows "(validate_key up key \<longleftrightarrow> key \<noteq> [] \<and> (\<forall>ch\<in>set (upper up key). ch \<in> set LETTERS)) \<and>
         (validate_key up key \<longrightarrow> (\<exists>r. prepare_key up key = Inr r)) \<and>
         validate_key up [0x41, 0x21] = False \<and>
         prepare_key up [0x41, 0x21] = Inr ([0x41], enumerate_dict LETTERS, length LETTERS)"
proof -
  have v: "validate_key up key \<longleftrightarrow> key \<noteq> [] \<and> (\<forall>ch\<in>set (upper up key). ch \<in> set LETTERS)"
    for key
    by (simp add: validate_key_def utils_LETTERS_eq list_all_iff)
  have p: "\<exists>r. prepare_key up key = Inr r" if "validate_key up key"
  proof -
    from that v obtain c cs where k: "key = c # cs"
      and a: "\<forall>ch\<in>set (upper up key). ch \<in> set LETTERS" by (cases key) auto
    from nonempty have "up c \<noteq> []" by simp
    then have "upper up key \<noteq> []" by (simp add: k upper_def)
    moreover have "filter (\<lambda>ch. ch \<in> set LETTERS) (upper up key) = upper up key" using a by simp
    ultimately show ?thesis unfolding prepare_key_cases [of up key] by (simp add: k)
  qed
  have A: "0x41 \<in> set LETTERS" and B: "0x21 \<notin> set LETTERS" by (simp_all add: LETTERS_def)
  from A fixed have ua: "up 0x41 = [0x41]" by blast
  have u: "upper up [0x41, 0x21] = [0x41, 0x21]" by (simp add: upper_def ua bang)
  have e1: "validate_key up [0x41, 0x21] = False" unfolding v [of "[0x41, 0x21]"] u using B by simp
  have e2: "prepare_key up [0x41, 0x21] = Inr ([0x41], enumerate_dict LETTERS, length LETTERS)"
    unfolding prepare_key_cases [of up "[0x41, 0x21]"] u using A B by simp
  from v p e1 e2 show ?thesis by blast
qed

section \<open>The claims on the cipher at concrete inputs\<close>

lemma basic_upper_fixed: "\<forall>c\<in>set LETTERS. basic_upper c = [c]"
  by (simp add: LETTERS_def basic_upper_def)

lemma basic_upper_nonempty: "\<forall>c. basic_upper c \<noteq> []"
  by (simp add: basic_upper_def)

lemma basic_upper_bang: "basic_upper 0x21 = [0x21]"
  by (simp add: basic_upper_def)

lemma index_A: "enumerate_dict LETTERS 0x41 = Some 0"
  using index_nth [of 0] by (simp add: LETTERS_def)

lemma index_B: "enumerate_dict LETTERS 0x42 = Some 1"
  using index_nth [of 1] by (simp add: LETTERS_def)

lemma index_C: "enumerate_dict LETTERS 0x43 = Some 2"
  using index_nth [of 2] by (simp add: LETTERS_def)

lemma index_D: "enumerate_dict LETTERS 0x44 = Some 3"
  using index_nth [of 3] by (simp add: LETTERS_def)

lemma not_letters: "0x2D \<notin> set LETTERS" "0x20 \<notin> set LETTERS" "0x21 \<notin> set LETTERS" "0x31 \<notin> set LETTERS"
  by (simp_all add: LETTERS_def)

lemma are_letters: "0x41 \<in> set LETTERS" "0x42 \<in> set LETTERS" "0x43 \<in> set LETTERS" "0x44 \<in> set LETTERS"
  by (simp_all add: LETTERS_def)

lemma basic_upper_id:
  "\<not> (0x61 \<le> d \<and> d \<le> 0x7A) \<Longrightarrow> d \<noteq> 0xB5 \<Longrightarrow> d \<noteq> 0xDF \<Longrightarrow>
   \<not> (0xE0 \<le> d \<and> d \<le> 0xFE \<and> d \<noteq> 0xF7) \<Longrightarrow> d \<noteq> 0xFF \<Longrightarrow>
   \<not> (0x430 \<le> d \<and> d \<le> 0x44F) \<Longrightarrow> \<not> (0x450 \<le> d \<and> d \<le> 0x45F) \<Longrightarrow> d \<noteq> 0x491 \<Longrightarrow>
   basic_upper d = [d]"
  by (simp add: basic_upper_def) linarith

lemma basic_upper_idem: "\<forall>c. \<forall>d\<in>set (basic_upper c). basic_upper d = [d]"
proof (intro allI ballI)
  fix c d assume d: "d \<in> set (basic_upper c)"
  consider (a) "0x61 \<le> c" "c \<le> 0x7A" "d = c - 0x20"
    | (b) "d = 0x39C" | (c) "d = 0x53"
    | (e) "0xE0 \<le> c" "c \<le> 0xFE" "c \<noteq> 0xF7" "d = c - 0x20"
    | (f) "d = 0x178"
    | (g) "0x430 \<le> c" "c \<le> 0x44F" "d = c - 0x20"
    | (h) "0x450 \<le> c" "c \<le> 0x45F" "d = c - 0x50"
    | (i) "d = 0x490"
    | (j) "d = c" "basic_upper c = [c]"
    using d unfolding basic_upper_def by (simp split: if_splits)
  then show "basic_upper d = [d]"
  proof cases
    case a
    then show ?thesis by (intro basic_upper_id) linarith+
  next
    case b
    then show ?thesis by (simp add: basic_upper_def)
  next
    case c
    then show ?thesis by (simp add: basic_upper_def)
  next
    case e
    then show ?thesis by (intro basic_upper_id) linarith+
  next
    case f
    then show ?thesis by (simp add: basic_upper_def)
  next
    case g
    then show ?thesis by (intro basic_upper_id) linarith+
  next
    case h
    then show ?thesis by (intro basic_upper_id) linarith+
  next
    case i
    then show ?thesis by (simp add: basic_upper_def)
  next
    case j
    then show ?thesis by simp
  qed
qed


lemma LETTERS_nth: "LETTERS ! 0 = 0x41" "LETTERS ! 1 = 0x42" "LETTERS ! 2 = 0x43" "LETTERS ! 3 = 0x44"
  using index_Some [OF index_A] index_Some [OF index_B] index_Some [OF index_C]
    index_Some [OF index_D] by simp_all

lemma char_at_LETTERS:
  "char_at LETTERS 0 = Inr 0x41" "char_at LETTERS 1 = Inr 0x42" "char_at LETTERS 2 = Inr 0x43"
  "char_at LETTERS 3 = Inr 0x44" "char_at LETTERS (Suc 0) = Inr 0x42"
  using LETTERS_nth by (simp_all add: char_at_def length_LETTERS)

lemma dict_get_LETTERS:
  "dict_get (enumerate_dict LETTERS) 0x41 = Inr 0" "dict_get (enumerate_dict LETTERS) 0x42 = Inr 1"
  "dict_get (enumerate_dict LETTERS) 0x43 = Inr 2" "dict_get (enumerate_dict LETTERS) 0x44 = Inr 3"
  unfolding dict_get_def index_A index_B index_C index_D by simp_all

lemma key_B: "py_mod (int i) (length [0x42 :: nat]) = Inr 0" "char_at [0x42] 0 = Inr 0x42"
  by (simp_all add: py_mod_def char_at_def)

lemma encrypt_char_B:
  "encrypt_char [0x42] (enumerate_dict LETTERS) 71 i 0x41 = Inr 0x42"
  "encrypt_char [0x42] (enumerate_dict LETTERS) 71 i 0x42 = Inr 0x43"
  "encrypt_char [0x42] (enumerate_dict LETTERS) 71 i 0x43 = Inr 0x44"
  by (simp_all add: encrypt_char_def ebind_def py_mod_def key_B dict_get_LETTERS char_at_LETTERS)

lemma decrypt_char_B:
  "decrypt_char [0x42] (enumerate_dict LETTERS) 71 i 0x42 = Inr 0x41"
  "decrypt_char [0x42] (enumerate_dict LETTERS) 71 i 0x43 = Inr 0x42"
  "decrypt_char [0x42] (enumerate_dict LETTERS) 71 i 0x44 = Inr 0x43"
  by (simp_all add: decrypt_char_def ebind_def py_mod_def key_B dict_get_LETTERS char_at_LETTERS)

lemma upper_examples:
  "upper basic_upper [0x61, 0x2D, 0x62, 0x20, 0x43, 0x21] = [0x41, 0x2D, 0x42, 0x20, 0x43, 0x21]"
  "upper basic_upper [0x42, 0x2D, 0x43, 0x20, 0x44, 0x21] = [0x42, 0x2D, 0x43, 0x20, 0x44, 0x21]"
  "upper basic_upper [0x62] = [0x42]"
  "upper basic_upper [0x31, 0x21] = [0x31, 0x21]"
  "upper basic_upper [0x41, 0x21] = [0x41, 0x21]"
  "upper basic_upper [0x6B, 0x45, 0x79] = [0x4B, 0x45, 0x59]"
  by (simp_all add: upper_def basic_upper_def)

lemma encrypt_example:
  "vigenere_encrypt basic_upper [0x61, 0x2D, 0x62, 0x20, 0x43, 0x21] [0x62] =
     Inr [0x42, 0x2D, 0x43, 0x20, 0x44, 0x21]"
  unfolding vigenere_encrypt_def prepare_key_cases upper_examples length_LETTERS
  by (simp add: are_letters not_letters enumerate_dict_None encrypt_char_B)

lemma decrypt_example:
  "vigenere_decrypt basic_upper [0x42, 0x2D, 0x43, 0x20, 0x44, 0x21] [0x62] =
     Inr [0x41, 0x2D, 0x42, 0x20, 0x43, 0x21]"
  unfolding vigenere_decrypt_def prepare_key_cases upper_examples length_LETTERS
  by (simp add: are_letters not_letters enumerate_dict_None decrypt_char_B)


theorem vigenere_round_trip_witness:
  "vigenere_encrypt basic_upper [0x61, 0x2D, 0x62, 0x20, 0x43, 0x21] [0x62] =
     Inr [0x42, 0x2D, 0x43, 0x20, 0x44, 0x21] \<and>
   vigenere_decrypt basic_upper [0x42, 0x2D, 0x43, 0x20, 0x44, 0x21] [0x62] =
     Inr [0x41, 0x2D, 0x42, 0x20, 0x43, 0x21]"
  using vigenere_round_trip [OF basic_upper_fixed basic_upper_idem encrypt_example] encrypt_example
  by (simp add: upper_examples)

theorem vigenere_invalid_key_witness:
  "vigenere_encrypt basic_upper [0x48] [] = Inl (ValueError KeyEmpty) \<and>
   vigenere_decrypt basic_upper [0x48] [] = Inl (ValueError KeyEmpty) \<and>
   filter (\<lambda>ch. ch \<in> set LETTERS) (upper basic_upper [0x31, 0x21]) = [] \<and>
   vigenere_encrypt basic_upper [0x48] [0x31, 0x21] = Inl (ValueError KeyNoValidChars) \<and>
   vigenere_decrypt basic_upper [0x48] [0x31, 0x21] = Inl (ValueError KeyNoValidChars) \<and>
   filter (\<lambda>ch. ch \<in> set LETTERS) (upper basic_upper [0x62]) = [0x42] \<and>
   vigenere_encrypt basic_upper [0x61, 0x2D, 0x62, 0x20, 0x43, 0x21] [0x62] =
     Inr [0x42, 0x2D, 0x43, 0x20, 0x44, 0x21] \<and>
   vigenere_decrypt basic_upper [0x42, 0x2D, 0x43, 0x20, 0x44, 0x21] [0x62] =
     Inr [0x41, 0x2D, 0x42, 0x20, 0x43, 0x21]"
proof -
  have f: "filter (\<lambda>ch. ch \<in> set LETTERS) (upper basic_upper [0x31, 0x21]) = []"
    "filter (\<lambda>ch. ch \<in> set LETTERS) (upper basic_upper [0x62]) = [0x42]"
    unfolding upper_examples using are_letters not_letters by simp_all
  have e: "vigenere_encrypt basic_upper [0x48] [] = Inl (ValueError KeyEmpty)"
    "vigenere_decrypt basic_upper [0x48] [] = Inl (ValueError KeyEmpty)"
    "vigenere_encrypt basic_upper [0x48] [0x31, 0x21] = Inl (ValueError KeyNoValidChars)"
    "vigenere_decrypt basic_upper [0x48] [0x31, 0x21] = Inl (ValueError KeyNoValidChars)"
    unfolding vigenere_encrypt_def vigenere_decrypt_def prepare_key_cases f by simp_all
  show ?thesis
    using vigenere_invalid_key [of "[0x31, 0x21]" basic_upper "[0x48]"]
      vigenere_invalid_key [of "[0x62]" basic_upper "[0x61, 0x2D, 0x62, 0x20, 0x43, 0x21]"]
      f e encrypt_example decrypt_example
    by simp
qed

theorem validate_key_strict_witness:
  "validate_key basic_upper [0x41, 0x21] = False \<and>
   prepare_key basic_upper [0x41, 0x21] = Inr ([0x41], enumerate_dict LETTERS, length LETTERS) \<and>
   validate_key basic_upper [0x6B, 0x45, 0x79] = True \<and>
   prepare_key basic_upper [0x6B, 0x45, 0x79] =
     Inr ([0x4B, 0x45, 0x59], enumerate_dict LETTERS, length LETTERS)"
proof -
  have m: "0x4B \<in> set LETTERS" "0x45 \<in> set LETTERS" "0x59 \<in> set LETTERS"
    by (simp_all add: LETTERS_def)
  have p: "prepare_key basic_upper [0x6B, 0x45, 0x79] =
     Inr ([0x4B, 0x45, 0x59], enumerate_dict LETTERS, length LETTERS)"
    unfolding prepare_key_cases upper_examples using m by simp
  show ?thesis
    using validate_key_strict [OF basic_upper_fixed basic_upper_bang basic_upper_nonempty,
        of "[0x6B, 0x45, 0x79]"] p m
    by (simp add: upper_examples)
qed

end
